theory Spec2Isabelle
  imports Main
begin

section \<open>Data model of checker.py\<close>

text \<open>
  Python values as they reach the checker: JSON/YAML documents (snapshot inputs, system
  states, condition values, delta sides) and the sentinel \<open>NotPresent\<close> that the diff
  post-processing puts on the absent side of an insertion or deletion. Dictionaries are
  association lists in insertion order with string keys. Floating point numbers are not
  modelled.
\<close>

datatype pyval =
    PNone
  | PBool bool
  | PInt int
  | PStr string
  | PList "pyval list"
  | PDict "(string \<times> pyval) list"
  | NotPresent

text \<open>A path atom is a string key or an integer index; a path is a list of atoms.\<close>

datatype atom = Key string | Idx int

type_synonym path = "atom list"

text \<open>The exceptions that the modelled code can raise.\<close>

datatype exn = KeyError | IndexError | TypeError | AttributeError | OSError | ValueError

text \<open>\<open>Diff\<close> of module common: one change, with the value on each side and its path.\<close>

record Diff =
  prev :: pyval
  curr :: pyval
  path :: path

text \<open>
  The post-processed diff of two documents: change kind \<open>\<rightarrow>\<close> path key \<open>\<rightarrow>\<close> Diff. The
  system delta has one such mapping per resource kind.
\<close>

type_synonym delta_map = "(string \<times> (string \<times> Diff) list) list"

type_synonym system_delta = "(string \<times> delta_map) list"

datatype Oracle = SYSTEM_STATE | ERROR_LOG | SYSTEM_HEALTH

datatype RunResult =
    PassResult
  | UnchangedInputResult
  | ConnectionRefusedResult
  | InvalidInputResult "path option"
  | ErrorResult Oracle string "Diff option" "Diff option"

record Snapshot =
  input :: pyval
  cli_stdout :: string
  cli_stderr :: string
  system_state :: "(string \<times> pyval) list"
  operator_log :: "string list"

text \<open>
  A comparator as \<open>translate_op\<close> returns it: whether it is the object \<open>operator.eq\<close>
  (the source tests \<open>translate_op(op) == operator.eq\<close>), and what calling it on two
  values gives (a comparison of Python can raise \<open>TypeError\<close>).
\<close>

record opfun =
  is_operator_eq :: bool
  call :: "pyval \<Rightarrow> pyval \<Rightarrow> exn + bool"

text \<open>
  The collaborators of the checker that live in other modules (common, compare, input,
  parse\_log, deepdiff) and the one fact of the file system that \<open>check\<close> depends on.
  They are parameters of the model:
  \<^item> \<open>input_compare\<close>, \<open>compare\<close>: the two methods of \<open>CompareMethods\<close>;
  \<open>canonicalize\<close>; \<open>GENERIC_FIELDS\<close>, each regular expression given by the set of
  strings it is found in (\<open>re.search\<close>);
  \<^item> \<open>invalid_input_message\<close>; \<open>parse_log\<close>; \<open>translate_op\<close>;
  \<^item> \<open>input_diff\<close> and \<open>state_diff\<close>: \<open>postprocess_diff(DeepDiff(\<dots>))\<close> with the flags
  \<open>get_deltas\<close> passes for inputs and for system states;
  \<^item> \<open>schema_default\<close>: \<open>input_model.get_schema_by_path(p).default\<close>, which can raise;
  \<^item> \<open>writable\<close>: whether \<open>open(path, 'w')\<close> succeeds on the delta log of a trial
  directory and generation.
\<close>

record env =
  input_compare :: "pyval \<Rightarrow> pyval \<Rightarrow> bool"
  compare :: "pyval \<Rightarrow> pyval \<Rightarrow> pyval \<Rightarrow> pyval \<Rightarrow> bool"
  canonicalize :: "atom \<Rightarrow> string"
  GENERIC_FIELDS :: "(string \<Rightarrow> bool) list"
  invalid_input_message :: "string \<Rightarrow> delta_map \<Rightarrow> bool \<times> path option"
  parse_log :: "string \<Rightarrow> (string \<times> pyval) list"
  translate_op :: "string \<Rightarrow> exn + opfun"
  input_diff :: "pyval \<Rightarrow> pyval \<Rightarrow> delta_map"
  state_diff :: "pyval \<Rightarrow> pyval \<Rightarrow> delta_map"
  schema_default :: "path \<Rightarrow> exn + pyval"
  writable :: "string \<times> int \<Rightarrow> bool"

section \<open>Python primitives\<close>

text \<open>\<open>s.find(sub) != -1\<close>: \<open>sub\<close> occurs in \<open>s\<close>.\<close>

fun str_contains :: "string \<Rightarrow> string \<Rightarrow> bool" where
  "str_contains [] sub = (sub = [])"
| "str_contains (c # cs) sub = (take (length sub) (c # cs) = sub \<or> str_contains cs sub)"

text \<open>
  \<open>a == b\<close> on the modelled values: \<open>bool\<close> is a subtype of \<open>int\<close> (\<open>True == 1\<close>), lists
  compare elementwise, dictionaries by their keys and values whatever the order. No call
  of the source compares two \<open>NotPresent\<close> objects (schema defaults and condition values
  are plain documents); the model answers \<open>False\<close> whenever one side is \<open>NotPresent\<close>.
\<close>

fun py_num :: "pyval \<Rightarrow> int option" where
  "py_num (PBool b) = Some (if b then 1 else 0)"
| "py_num (PInt i) = Some i"
| "py_num _ = None"

fun py_eq :: "pyval \<Rightarrow> pyval \<Rightarrow> bool"
  and py_eq_list :: "pyval list \<Rightarrow> pyval list \<Rightarrow> bool"
  and py_eq_items :: "(string \<times> pyval) list \<Rightarrow> (string \<times> pyval) list \<Rightarrow> bool"
where
  "py_eq PNone b = (b = PNone)"
| "py_eq (PStr s) b = (b = PStr s)"
| "py_eq NotPresent b = False"
| "py_eq (PBool x) b = (py_num b = Some (if x then 1 else 0))"
| "py_eq (PInt i) b = (py_num b = Some i)"
| "py_eq (PList xs) b = (case b of PList ys \<Rightarrow> py_eq_list xs ys | _ \<Rightarrow> False)"
| "py_eq (PDict xs) b =
     (case b of PDict ys \<Rightarrow> length xs = length ys \<and> py_eq_items xs ys | _ \<Rightarrow> False)"
| "py_eq_list [] ys = (ys = [])"
| "py_eq_list (x # xs) ys = (case ys of [] \<Rightarrow> False | y # ys' \<Rightarrow> py_eq x y \<and> py_eq_list xs ys')"
| "py_eq_items [] ys = True"
| "py_eq_items ((k, v) # xs) ys =
     ((case map_of ys k of None \<Rightarrow> False | Some w \<Rightarrow> py_eq v w) \<and> py_eq_items xs ys)"

text \<open>\<open>xs[i]\<close> on a sequence: a negative index counts from the end.\<close>

definition list_index :: "'a list \<Rightarrow> int \<Rightarrow> exn + 'a" where
  "list_index xs i =
     (if 0 \<le> i \<and> i < int (length xs) then Inr (xs ! nat i)
      else if i < 0 \<and> - int (length xs) \<le> i then Inr (xs ! nat (int (length xs) + i))
      else Inl IndexError)"

text \<open>\<open>operator.getitem(v, a)\<close>.\<close>

fun py_getitem :: "pyval \<Rightarrow> atom \<Rightarrow> exn + pyval" where
  "py_getitem (PDict kvs) (Key k) = (case map_of kvs k of None \<Rightarrow> Inl KeyError | Some v \<Rightarrow> Inr v)"
| "py_getitem (PDict kvs) (Idx i) = Inl KeyError"
| "py_getitem (PList xs) (Idx i) = list_index xs i"
| "py_getitem (PList xs) (Key k) = Inl TypeError"
| "py_getitem (PStr s) (Idx i) =
     (case list_index s i of Inl e \<Rightarrow> Inl e | Inr c \<Rightarrow> Inr (PStr [c]))"
| "py_getitem (PStr s) (Key k) = Inl TypeError"
| "py_getitem v a = Inl TypeError"

text \<open>\<open>reduce(operator.getitem, path, input)\<close>.\<close>

fun reduce_getitem :: "path \<Rightarrow> pyval \<Rightarrow> exn + pyval" where
  "reduce_getitem [] v = Inr v"
| "reduce_getitem (a # as) v =
     (case py_getitem v a of Inl e \<Rightarrow> Inl e | Inr w \<Rightarrow> reduce_getitem as w)"

text \<open>\<open>str(a)\<close> of a path atom: the key itself, or the decimal digits of the index.\<close>

fun str_nat :: "nat \<Rightarrow> string" where
  "str_nat n =
     (if n < 10 then [''0123456789'' ! n] else str_nat (n div 10) @ [''0123456789'' ! (n mod 10)])"

definition str_int :: "int \<Rightarrow> string" where
  "str_int i = (if i < 0 then CHR ''-'' # str_nat (nat (- i)) else str_nat (nat i))"

fun str_atom :: "atom \<Rightarrow> string" where
  "str_atom (Key s) = s"
| "str_atom (Idx i) = str_int i"

text \<open>
  \<open>re.match(r"^\d$", s)\<close> on ASCII text: one decimal digit, which a final newline may
  follow (\<open>$\<close> also matches before it).
\<close>

definition is_digit :: "char \<Rightarrow> bool" where
  "is_digit c = (c \<in> set ''0123456789'')"

definition match_single_digit :: "string \<Rightarrow> bool" where
  "match_single_digit s =
     (case s of
        [c] \<Rightarrow> is_digit c
      | [c, d] \<Rightarrow> is_digit c \<and> d = CHR 0x0A
      | _ \<Rightarrow> False)"

text \<open>\<open>s.lower()\<close> on ASCII text.\<close>

definition lower_char :: "char \<Rightarrow> char" where
  "lower_char c =
     (case map_of (zip ''ABCDEFGHIJKLMNOPQRSTUVWXYZ'' ''abcdefghijklmnopqrstuvwxyz'') c of
        None \<Rightarrow> c
      | Some l \<Rightarrow> l)"

definition py_lower :: "string \<Rightarrow> string" where
  "py_lower s = map lower_char s"

text \<open>
  Dictionaries: \<open>d.values()\<close>, \<open>k in d\<close> and \<open>d[k] = v\<close> (an existing key keeps its place,
  a new one goes last).
\<close>

definition dict_values :: "('k \<times> 'v) list \<Rightarrow> 'v list" where
  "dict_values d = map snd d"

definition dict_keys :: "('k \<times> 'v) list \<Rightarrow> 'k list" where
  "dict_keys d = map fst d"

fun dict_set :: "('k \<times> 'v) list \<Rightarrow> 'k \<Rightarrow> 'v \<Rightarrow> ('k \<times> 'v) list" where
  "dict_set [] k v = [(k, v)]"
| "dict_set ((k', v') # rest) k v =
     (if k' = k then (k, v) # rest else (k', v') # dict_set rest k v)"

section \<open>The input oracle\<close>

text \<open>
  \<open>check_input\<close> of the source. The logging calls have no effect on the verdict and are
  left out.
\<close>

definition check_input :: "env \<Rightarrow> Snapshot \<Rightarrow> delta_map \<Rightarrow> RunResult" where
  "check_input E snapshot input_delta =
     (let stdout = cli_stdout snapshot; stderr = cli_stderr snapshot in
      if str_contains stderr ''connection refused'' then ConnectionRefusedResult
      else
        let (is_invalid, reponsible_field_path) = invalid_input_message E stderr input_delta;
            is_invalid = (if length stderr > 0 then True else is_invalid)
        in if is_invalid then InvalidInputResult reponsible_field_path
           else if str_contains stdout ''unchanged'' \<or> str_contains stderr ''unchanged''
                then UnchangedInputResult
                else PassResult)"

section \<open>The checker and its dependency index\<close>

text \<open>
  A condition record \<open>{'field': \<dots>, 'op': \<dots>, 'value': \<dots>}\<close> as a document: this is how
  the analysis result holds it, and how it prints.
\<close>

record condition_doc =
  field_doc :: path
  op_doc :: string
  value_doc :: pyval

text \<open>
  The \<open>context\<close> dictionary that the constructor receives: \<open>namespace\<close>,
  \<open>enable_analysis\<close> and, when present, \<open>analysis_result\<close> with its
  \<open>field_conditions_map\<close> and \<open>control_flow_fields\<close>.
\<close>

record analysis =
  ar_field_conditions_map :: "(path \<times> condition_doc list) list"
  ar_control_flow_fields :: "path list"

record acto_context =
  namespace :: string
  enable_analysis :: bool
  analysis_result :: "analysis option"

text \<open>
  Inside the checker a condition is a dictionary object whose \<open>'field'\<close> entry refers to
  a list object. \<open>encode_dependency\<close> stores one and the same list in every condition
  that one call appends, and \<open>check_condition\<close> writes to the list in place, so the lists
  live in a store and a condition holds the address of its list. The dependency index
  \<open>field_conditions_map\<close> is a dictionary from a path (the source keys it by
  \<open>json.dumps\<close> of the path and reads the key back with \<open>json.loads\<close>; the model keys
  it by the path itself) to the list of conditions of that path, in insertion order.
\<close>

record condition =
  cfield :: nat
  cop :: string
  cvalue :: pyval

type_synonym conditions_map = "(path \<times> condition list) list"

type_synonym list_store = "nat \<Rightarrow> path"

text \<open>
  \<open>self.context\<close> as the checker reads it after construction: the flag
  \<open>enable_analysis\<close>, and \<open>control_flow_fields\<close> of the analysis result when the context
  has one. The entry \<open>field_conditions_map\<close> of the analysis result is, when analysis is
  enabled, the very dictionary that \<open>self.field_conditions_map\<close> refers to: the model
  holds that object once, as the attribute of the checker.
\<close>

record checker_context =
  ctx_namespace :: string
  ctx_enable_analysis :: bool
  ctx_control_flow_fields :: "path list option"

text \<open>
  The attributes of a \<open>Checker\<close>, with the store of the lists that its conditions refer
  to (\<open>next_list\<close> is the first address not in use). \<open>delta_log_path\<close> is set by
  \<open>check\<close> (to the trial directory and the generation that the file name is formatted
  from) and does not exist before.
\<close>

record Checker =
  ctx :: checker_context
  trial_dir :: string
  field_conditions_map :: conditions_map
  field_lists :: list_store
  next_list :: nat
  delta_log_path :: "(string \<times> int) option"



text \<open>
  The conditions of the analysis result become objects of their own: every condition
  document gets a list of its own in the store.
\<close>

fun load_conditions ::
  "condition_doc list \<Rightarrow> list_store \<Rightarrow> nat \<Rightarrow> condition list \<times> list_store \<times> nat" where
  "load_conditions [] st n = ([], st, n)"
| "load_conditions (d # ds) st n =
     (case load_conditions ds (st(n := field_doc d)) (n + 1) of
        (cs, st', n') \<Rightarrow>
          (\<lparr>cfield = n, cop = op_doc d, cvalue = value_doc d\<rparr> # cs, st', n'))"

fun load_index ::
  "(path \<times> condition_doc list) list \<Rightarrow> list_store \<Rightarrow> nat \<Rightarrow> conditions_map \<times> list_store \<times> nat" where
  "load_index [] st n = ([], st, n)"
| "load_index ((key, ds) # rest) st n =
     (case load_conditions ds st n of
        (cs, st1, n1) \<Rightarrow>
          (case load_index rest st1 n1 of
             (m, st2, n2) \<Rightarrow> ((key, cs) # m, st2, n2)))"

text \<open>The input schema: what \<open>helper\<close> distinguishes, with the path of an object.\<close>

datatype schema =
    ObjectSchema path "(string \<times> schema) list"
  | ArraySchema schema
  | OtherSchema

text \<open>
  Modelled from the spec: \<open>is_subfield\<close> of module common, which is not among the
  sources. The spec's dependency encoding appends the condition to every path of the
  index "whose prefix equals the object's path": \<open>is_subfield subpath p\<close> holds when
  \<open>p\<close> is an elementwise prefix of \<open>subpath\<close>.
\<close>

definition is_subfield :: "path \<Rightarrow> path \<Rightarrow> bool" where
  "is_subfield subpath p = (length p \<le> length subpath \<and> take (length p) subpath = p)"

text \<open>
  \<open>encode_dependency\<close>, given the address of the list \<open>dependee\<close>: each condition that
  the loop appends is a new dictionary, and all of them refer to that one list.
\<close>

definition enabled_condition :: "nat \<Rightarrow> condition" where
  "enabled_condition dependee = \<lparr>cfield = dependee, cop = ''=='', cvalue = PStr ''true''\<rparr>"

definition encode_dependency :: "path \<Rightarrow> nat \<Rightarrow> conditions_map \<Rightarrow> conditions_map" where
  "encode_dependency depender dependee m =
     (let m1 = (if depender \<in> set (dict_keys m) then m else dict_set m depender [])
      in map (\<lambda>(key, v).
                if is_subfield key depender then (key, v @ [enabled_condition dependee])
                else (key, v)) m1)"

text \<open>
  \<open>helper\<close>. The argument \<open>schema.path+[key]\<close> of \<open>encode_dependency\<close> is a new list,
  which takes the next address of the store.
\<close>

fun helper :: "schema \<Rightarrow> conditions_map \<times> list_store \<times> nat \<Rightarrow> conditions_map \<times> list_store \<times> nat"
  and helper_properties ::
    "path \<Rightarrow> (string \<times> schema) list \<Rightarrow> conditions_map \<times> list_store \<times> nat
       \<Rightarrow> conditions_map \<times> list_store \<times> nat"
where
  "helper (ObjectSchema p properties) s = helper_properties p properties s"
| "helper (ArraySchema item) s = s"
| "helper OtherSchema s = s"
| "helper_properties p [] s = s"
| "helper_properties p ((key, v) # rest) (m, st, n) =
     (let s1 = (if key = ''enabled''
                then (encode_dependency p n m, st(n := p @ [Key key]), n + 1)
                else (m, st, n));
          s2 = (case v of
                  ObjectSchema q ps \<Rightarrow> helper v s1
                | ArraySchema item \<Rightarrow> helper item s1
                | OtherSchema \<Rightarrow> s1)
      in helper_properties p rest s2)"

text \<open>\<open>Checker.__init__\<close>, given the context, the trial directory and the root schema.\<close>

definition Checker_init :: "acto_context \<Rightarrow> string \<Rightarrow> schema \<Rightarrow> exn + Checker" where
  "Checker_init c dir root =
     (case (if enable_analysis c
            then (case analysis_result c of
                    None \<Rightarrow> Inl KeyError
                  | Some a \<Rightarrow> Inr (load_index (ar_field_conditions_map a) (\<lambda>a. []) 0))
            else Inr ([], \<lambda>a. [], 0))
      of Inl e \<Rightarrow> Inl e
       | Inr s \<Rightarrow>
           (case helper root s of
              (m, st, n) \<Rightarrow>
                Inr \<lparr>ctx = \<lparr>ctx_namespace = namespace c,
                            ctx_enable_analysis = enable_analysis c,
                            ctx_control_flow_fields =
                              map_option ar_control_flow_fields (analysis_result c)\<rparr>,
                     trial_dir = dir, field_conditions_map = m, field_lists = st,
                     next_list = n, delta_log_path = None\<rparr>))"

section \<open>The skip engine\<close>

text \<open>
  \<open>find_nearest_parent\<close>: the loop over the keys of the index, with its two local
  variables. The source never assigns \<open>length\<close> after its initialisation to 0.
\<close>

definition different :: "path \<Rightarrow> path \<Rightarrow> bool" where
  "different p pth = (\<exists>i \<in> set [0 ..< length p]. p ! i \<noteq> pth ! i)"

fun find_nearest_parent_loop :: "path \<Rightarrow> path list \<Rightarrow> nat \<Rightarrow> path option \<Rightarrow> path option" where
  "find_nearest_parent_loop pth [] len ret = ret"
| "find_nearest_parent_loop pth (p # rest) len ret =
     (if length p > length pth then find_nearest_parent_loop pth rest len ret
      else if different p pth then find_nearest_parent_loop pth rest len ret
      else if length p > len then find_nearest_parent_loop pth rest len (Some p)
      else find_nearest_parent_loop pth rest len ret)"

definition find_nearest_parent :: "path \<Rightarrow> path list \<Rightarrow> path option" where
  "find_nearest_parent pth encoded_path_list = find_nearest_parent_loop pth encoded_path_list 0 None"

text \<open>
  \<open>check_condition\<close>. It writes to the objects that it is given: every atom \<open>'INDEX'\<close>
  of the list that the condition's \<open>'field'\<close> refers to becomes the integer 0, and the
  \<open>'value'\<close> of the condition becomes a boolean when the first comparison fails on a
  boolean. The result comes with the store and the condition as the call leaves them.
\<close>

definition index_to_zero :: "path \<Rightarrow> path" where
  "index_to_zero p = map (\<lambda>a. if a = Key ''INDEX'' then Idx 0 else a) p"

definition apply_op :: "env \<Rightarrow> string \<Rightarrow> pyval \<Rightarrow> pyval \<Rightarrow> exn + bool" where
  "apply_op E oper a b = (case translate_op E oper of Inl e \<Rightarrow> Inl e | Inr f \<Rightarrow> call f a b)"

definition check_condition ::
  "env \<Rightarrow> pyval \<Rightarrow> list_store \<Rightarrow> condition \<Rightarrow> (exn + bool) \<times> list_store \<times> condition" where
  "check_condition E inp st c =
     (let pth = index_to_zero (st (cfield c));
          st1 = st(cfield c := pth) in
      case reduce_getitem pth inp of
        Inl e \<Rightarrow>
          if e = KeyError \<or> e = TypeError
          then (case translate_op E (cop c) of
                  Inl e' \<Rightarrow> (Inl e', st1, c)
                | Inr f \<Rightarrow> (Inr (is_operator_eq f \<and> py_eq (cvalue c) PNone), st1, c))
          else (Inl e, st1, c)
      | Inr v \<Rightarrow>
          (case apply_op E (cop c) v (cvalue c) of
             Inl e \<Rightarrow> (Inl e, st1, c)
           | Inr True \<Rightarrow> (Inr True, st1, c)
           | Inr False \<Rightarrow>
               (case v of
                  PBool b \<Rightarrow>
                    (let c2 = c\<lparr>cvalue := PBool (py_eq (cvalue c) (PStr ''true''))\<rparr>
                     in (apply_op E (cop c2) v (cvalue c2), st1, c2))
                | _ \<Rightarrow> (Inr False, st1, c))))"

text \<open>
  The loop \<open>for condition in conditions: if not self.check_condition(\<dots>): return True\<close>.
  The result is \<open>Inr True\<close> when the loop returns \<open>True\<close> and \<open>Inr False\<close> when it runs
  to its end; the store and the conditions come back as the loop leaves them.
\<close>

fun check_conditions ::
  "env \<Rightarrow> pyval \<Rightarrow> list_store \<Rightarrow> condition list \<Rightarrow> (exn + bool) \<times> list_store \<times> condition list" where
  "check_conditions E inp st [] = (Inr False, st, [])"
| "check_conditions E inp st (c # cs) =
     (case check_condition E inp st c of
        (Inl e, st', c') \<Rightarrow> (Inl e, st', c' # cs)
      | (Inr False, st', c') \<Rightarrow> (Inr True, st', c' # cs)
      | (Inr True, st', c') \<Rightarrow>
          (case check_conditions E inp st' cs of (r, st'', cs') \<Rightarrow> (r, st'', c' # cs')))"

text \<open>The conditions under \<open>key\<close> are checked in place, in the index of the checker.\<close>

definition check_conditions_at :: "env \<Rightarrow> pyval \<Rightarrow> path \<Rightarrow> Checker \<Rightarrow> (exn + bool) \<times> Checker" where
  "check_conditions_at E inp key C =
     (case map_of (field_conditions_map C) key of
        None \<Rightarrow> (Inl KeyError, C)
      | Some conditions \<Rightarrow>
          (case check_conditions E inp (field_lists C) conditions of
             (r, st', conditions') \<Rightarrow>
               (r, C\<lparr>field_conditions_map := dict_set (field_conditions_map C) key conditions',
                      field_lists := st'\<rparr>)))"

text \<open>The default-value rule, inside its \<open>try\<close>: any exception of the lookup is caught.\<close>

definition default_value_skip :: "env \<Rightarrow> Diff \<Rightarrow> bool" where
  "default_value_skip E input_delta =
     (case schema_default E (path input_delta) of
        Inl e \<Rightarrow> False
      | Inr default_value \<Rightarrow>
          if py_eq (prev input_delta) default_value
             \<and> (py_eq (curr input_delta) PNone \<or> curr input_delta = NotPresent) then True
          else if py_eq (curr input_delta) default_value
             \<and> (py_eq (prev input_delta) PNone \<or> prev input_delta = NotPresent) then True
          else False)"

text \<open>The control-flow rule: the loop over the atoms of two paths of the same length.\<close>

fun control_flow_not_match :: "path \<Rightarrow> path \<Rightarrow> bool" where
  "control_flow_not_match (a # as) (c # cs) =
     (if c = Key ''INDEX'' \<and> match_single_digit (str_atom a) then control_flow_not_match as cs
      else if a \<noteq> c then True
      else control_flow_not_match as cs)"
| "control_flow_not_match as cs = False"

fun control_flow_loop :: "path \<Rightarrow> path list \<Rightarrow> bool" where
  "control_flow_loop pth [] = False"
| "control_flow_loop pth (control_flow_field # rest) =
     (if length pth = length control_flow_field
      then (if control_flow_not_match pth control_flow_field then control_flow_loop pth rest
            else True)
      else control_flow_loop pth rest)"

definition control_flow_skip :: "Checker \<Rightarrow> Diff \<Rightarrow> bool" where
  "control_flow_skip C input_delta =
     (if \<not> ctx_enable_analysis (ctx C) then False
      else case ctx_control_flow_fields (ctx C) of
             None \<Rightarrow> False
           | Some control_flow_fields \<Rightarrow> control_flow_loop (path input_delta) control_flow_fields)"

definition should_skip_input_delta :: "env \<Rightarrow> Checker \<Rightarrow> Diff \<Rightarrow> Snapshot \<Rightarrow> (exn + bool) \<times> Checker" where
  "should_skip_input_delta E C input_delta snapshot =
     (if default_value_skip E input_delta then (Inr True, C)
      else
        case (if path input_delta \<in> set (dict_keys (field_conditions_map C))
              then check_conditions_at E (input snapshot) (path input_delta) C
              else (case find_nearest_parent (path input_delta) (dict_keys (field_conditions_map C)) of
                      None \<Rightarrow> (Inr False, C)
                    | Some parent \<Rightarrow> check_conditions_at E (input snapshot) parent C))
        of (Inl e, C') \<Rightarrow> (Inl e, C')
         | (Inr True, C') \<Rightarrow> (Inr True, C')
         | (Inr False, C') \<Rightarrow> (Inr (control_flow_skip C' input_delta), C'))"

section \<open>Path matching\<close>

text \<open>
  The \<open>while\<close> loop of \<open>_list_matched_fields\<close>: \<open>position\<close> counts the atoms that the
  two paths share from their ends, after \<open>canonicalize\<close>. Reading \<open>path[-position - 1]\<close>
  raises \<open>IndexError\<close> on a path that is too short.
\<close>

function match_loop :: "env \<Rightarrow> path \<Rightarrow> path \<Rightarrow> nat \<Rightarrow> exn + nat" where
  "match_loop E pth dpath position =
     (case list_index pth (- int position - 1) of
        Inl e \<Rightarrow> Inl e
      | Inr a \<Rightarrow>
          (case list_index dpath (- int position - 1) of
             Inl e \<Rightarrow> Inl e
           | Inr b \<Rightarrow>
               if canonicalize E a = canonicalize E b
               then (if position + 1 = min (length pth) (length dpath) then Inr (position + 1)
                     else match_loop E pth dpath (position + 1))
               else Inr position))"
  by pat_completeness auto
termination
proof (relation "measure (\<lambda>(E, pth, dpath, position). min (length pth) (length dpath) - position)")
  show "wf (measure (\<lambda>(E, pth, dpath, position). min (length pth) (length dpath) - position))"
    by simp
next
  fix E :: env and pth dpath :: path and position :: nat and a b :: atom
  assume "list_index pth (- int position - 1) = Inr a"
    and "list_index dpath (- int position - 1) = Inr b"
  then have "position < length pth" and "position < length dpath"
    by (auto simp: list_index_def split: if_splits)
  then show "((E, pth, dpath, position + 1), (E, pth, dpath, position))
      \<in> measure (\<lambda>(E, pth, dpath, position). min (length pth) (length dpath) - position)"
    by simp
qed

text \<open>
  The equation of \<open>match_loop\<close> rewrites the function by itself; it is unfolded by hand.
\<close>

declare match_loop.simps [simp del]

text \<open>The loop over \<open>GENERIC_FIELDS\<close>, which reads \<open>path[-1]\<close> at each regular expression.\<close>

fun generic_loop :: "(string \<Rightarrow> bool) list \<Rightarrow> path \<Rightarrow> exn + bool" where
  "generic_loop [] pth = Inr False"
| "generic_loop (regex # rest) pth =
     (case list_index pth (- 1) of
        Inl e \<Rightarrow> Inl e
      | Inr a \<Rightarrow> if regex (str_atom a) then Inr True else generic_loop rest pth)"

text \<open>The three nested loops over a system delta visit its deltas in this order.\<close>

definition state_deltas :: "system_delta \<Rightarrow> Diff list" where
  "state_deltas delta_dict =
     concat (map (\<lambda>resource_delta_list. concat (map dict_values (dict_values resource_delta_list)))
                 (dict_values delta_dict))"

fun matched_fields_loop :: "env \<Rightarrow> path \<Rightarrow> Diff list \<Rightarrow> Diff list \<Rightarrow> nat \<Rightarrow> exn + Diff list" where
  "matched_fields_loop E pth [] results max_match = Inr results"
| "matched_fields_loop E pth (delta # rest) results max_match =
     (case match_loop E pth (path delta) 0 of
        Inl e \<Rightarrow> Inl e
      | Inr position \<Rightarrow>
          if position = max_match \<and> position \<noteq> 0
          then matched_fields_loop E pth rest (results @ [delta]) max_match
          else if position > max_match
          then matched_fields_loop E pth rest [delta] position
          else matched_fields_loop E pth rest results max_match)"

definition list_matched_fields :: "env \<Rightarrow> path \<Rightarrow> system_delta \<Rightarrow> exn + Diff list" where
  "list_matched_fields E pth delta_dict =
     (case generic_loop (GENERIC_FIELDS E) pth of
        Inl e \<Rightarrow> Inl e
      | Inr True \<Rightarrow> Inr []
      | Inr False \<Rightarrow> matched_fields_loop E pth (state_deltas delta_dict) [] 0)"

section \<open>The objects that \<open>check\<close> works on\<close>

text \<open>
  \<open>check(self, snapshot, prev_snapshot, generation)\<close> receives references to three
  objects and can write to each of them and to the delta log files. The model passes
  these objects and the files written so far (per trial directory and generation, the
  two deltas that the file holds) through every call, and returns them as the call leaves
  them, also when it raises.
\<close>

record heap =
  self :: Checker
  snapshot :: Snapshot
  prev_snapshot :: Snapshot
  files :: "string \<times> int \<Rightarrow> (delta_map \<times> system_delta) option"

text \<open>
  \<open>get_deltas\<close>. The loop over the resource kinds of the current system state stores an
  empty dictionary in the previous system state for each kind that it lacks.
\<close>

fun system_state_delta_loop ::
  "env \<Rightarrow> (string \<times> pyval) list \<Rightarrow> (string \<times> pyval) list \<Rightarrow> system_delta
     \<Rightarrow> (string \<times> pyval) list \<times> system_delta" where
  "system_state_delta_loop E [] prev_system_state system_state_delta =
     (prev_system_state, system_state_delta)"
| "system_state_delta_loop E ((resource, cur) # rest) prev_system_state system_state_delta =
     (case map_of prev_system_state resource of
        None \<Rightarrow>
          system_state_delta_loop E rest (dict_set prev_system_state resource (PDict []))
            (dict_set system_state_delta resource (state_diff E (PDict []) cur))
      | Some p \<Rightarrow>
          system_state_delta_loop E rest prev_system_state
            (dict_set system_state_delta resource (state_diff E p cur)))"

definition get_deltas :: "env \<Rightarrow> heap \<Rightarrow> delta_map \<times> system_delta \<times> heap" where
  "get_deltas E h =
     (let input_delta = input_diff E (input (prev_snapshot h)) (input (snapshot h)) in
      case system_state_delta_loop E (system_state (snapshot h))
             (system_state (prev_snapshot h)) [] of
        (prev_system_state, system_state_delta) \<Rightarrow>
          (input_delta, system_state_delta,
           h\<lparr>prev_snapshot := (prev_snapshot h)\<lparr>system_state := prev_system_state\<rparr>\<rparr>))"

section \<open>The state oracle\<close>

text \<open>The two nested loops over the input delta visit its deltas in this order.\<close>

definition input_deltas :: "delta_map \<Rightarrow> Diff list" where
  "input_deltas input_delta = concat (map dict_values (dict_values input_delta))"

text \<open>\<open>d.pop(k)\<close>, which raises \<open>KeyError\<close> on a key that \<open>d\<close> does not have.\<close>

definition dict_pop :: "('k \<times> 'v) list \<Rightarrow> 'k \<Rightarrow> exn + ('k \<times> 'v) list" where
  "dict_pop d k = (if k \<in> set (dict_keys d) then Inr (filter (\<lambda>kv. fst kv \<noteq> k) d) else Inl KeyError)"

text \<open>
  The wildcard fallback: the loops that set \<open>found\<close> when some state delta compares
  true with the input delta.
\<close>

definition found_fallback :: "env \<Rightarrow> Diff \<Rightarrow> system_delta \<Rightarrow> bool" where
  "found_fallback E delta system_delta_without_cr =
     list_ex (\<lambda>state_delta. compare E (prev delta) (curr delta) (prev state_delta) (curr state_delta))
       (state_deltas system_delta_without_cr)"

text \<open>
  The loop of \<open>check_resources\<close> over the input deltas. The checker is passed along
  because the skip engine writes to the conditions that it evaluates.
\<close>

fun check_deltas ::
  "env \<Rightarrow> Snapshot \<Rightarrow> system_delta \<Rightarrow> Diff list \<Rightarrow> Checker \<Rightarrow> (exn + RunResult) \<times> Checker" where
  "check_deltas E snap sd [] C = (Inr PassResult, C)"
| "check_deltas E snap sd (delta # rest) C =
     (if input_compare E (prev delta) (curr delta) then check_deltas E snap sd rest C
      else
        case should_skip_input_delta E C delta snap of
          (Inl e, C') \<Rightarrow> (Inl e, C')
        | (Inr True, C') \<Rightarrow> check_deltas E snap sd rest C'
        | (Inr False, C') \<Rightarrow>
            (case list_matched_fields E (path delta) sd of
               Inl e \<Rightarrow> (Inl e, C')
             | Inr match_deltas \<Rightarrow>
                 (case find (\<lambda>match_delta. \<not> compare E (prev delta) (curr delta)
                                               (prev match_delta) (curr match_delta))
                         match_deltas of
                    Some match_delta \<Rightarrow>
                      (Inr (ErrorResult SYSTEM_STATE
                              ''Matched delta inconsistent with input delta''
                              (Some delta) (Some match_delta)), C')
                  | None \<Rightarrow>
                      if length match_deltas = 0
                      then (if found_fallback E delta sd then check_deltas E snap sd rest C'
                            else (Inr (ErrorResult SYSTEM_STATE
                                         ''Found no matching fields for input''
                                         (Some delta) None), C'))
                      else check_deltas E snap sd rest C')))"

text \<open>
  \<open>check_resources\<close>: the deltas, the delta log, the working copy of the system delta
  without \<open>custom_resource_spec\<close>, and the loop. Opening the delta log is not inside any
  \<open>try\<close>; \<open>self.delta_log_path\<close> exists once \<open>check\<close> has set it.
\<close>

definition check_resources :: "env \<Rightarrow> heap \<Rightarrow> (exn + RunResult) \<times> heap" where
  "check_resources E h =
     (case get_deltas E h of
        (input_delta, system_delta, h1) \<Rightarrow>
          (case delta_log_path (self h1) of
             None \<Rightarrow> (Inl AttributeError, h1)
           | Some p \<Rightarrow>
               if \<not> writable E p then (Inl OSError, h1)
               else
                 let h2 = h1\<lparr>files := (files h1)(p \<mapsto> (input_delta, system_delta))\<rparr> in
                 (case dict_pop system_delta ''custom_resource_spec'' of
                    Inl e \<Rightarrow> (Inl e, h2)
                  | Inr system_delta_without_cr \<Rightarrow>
                      (case check_deltas E (snapshot h2) system_delta_without_cr
                              (input_deltas input_delta) (self h2) of
                         (r, C') \<Rightarrow> (r, h2\<lparr>self := C'\<rparr>)))))"

section \<open>The log oracle\<close>

text \<open>
  \<open>check_operator_log\<close>. The loop over \<open>EXCLUDE_ERROR_REGEX\<close> only sets a local variable
  before the next line is read (the branch that reported an error is commented out in
  the source), so it is left out.
\<close>

fun log_values_loop :: "env \<Rightarrow> delta_map \<Rightarrow> pyval list \<Rightarrow> RunResult option" where
  "log_values_loop E input_delta [] = None"
| "log_values_loop E input_delta (v # vs) =
     (case v of
        PStr s \<Rightarrow>
          if s = [] then log_values_loop E input_delta vs
          else (case invalid_input_message E s input_delta of
                  (is_invalid, reponsible_field_path) \<Rightarrow>
                    if is_invalid then Some (InvalidInputResult reponsible_field_path)
                    else log_values_loop E input_delta vs)
      | _ \<Rightarrow> log_values_loop E input_delta vs)"

fun operator_log_loop :: "env \<Rightarrow> delta_map \<Rightarrow> string list \<Rightarrow> exn + RunResult" where
  "operator_log_loop E input_delta [] = Inr PassResult"
| "operator_log_loop E input_delta (line # rest) =
     (let parsed_log = parse_log E line in
      if parsed_log = [] then operator_log_loop E input_delta rest
      else
        case map_of parsed_log ''level'' of
          None \<Rightarrow> Inl KeyError
        | Some (PStr level) \<Rightarrow>
            if py_lower level \<noteq> ''warn'' \<and> py_lower level \<noteq> ''error''
               \<and> py_lower level \<noteq> ''fatal''
            then operator_log_loop E input_delta rest
            else (case log_values_loop E input_delta (dict_values parsed_log) of
                    Some r \<Rightarrow> Inr r
                  | None \<Rightarrow> operator_log_loop E input_delta rest)
        | Some _ \<Rightarrow> Inl AttributeError)"

definition check_operator_log :: "env \<Rightarrow> heap \<Rightarrow> (exn + RunResult) \<times> heap" where
  "check_operator_log E h =
     (case get_deltas E h of
        (input_delta, system_delta, h1) \<Rightarrow>
          (operator_log_loop E input_delta (operator_log (snapshot h1)), h1))"

section \<open>The combined check\<close>

fun is_InvalidInputResult :: "RunResult \<Rightarrow> bool" where
  "is_InvalidInputResult (InvalidInputResult p) = True"
| "is_InvalidInputResult r = False"

fun is_ErrorResult :: "RunResult \<Rightarrow> bool" where
  "is_ErrorResult (ErrorResult t msg d m) = True"
| "is_ErrorResult r = False"

text \<open>
  \<open>check\<close>. The count of the state fields and of the deltas is only logged, and the
  health oracle is not called: the source binds \<open>health_result\<close> to \<open>PassResult()\<close>.
\<close>

definition check :: "env \<Rightarrow> heap \<Rightarrow> int \<Rightarrow> (exn + RunResult) \<times> heap" where
  "check E h generation =
     (if system_state (snapshot h) = [] then (Inr (InvalidInputResult None), h)
      else
        let h0 = h\<lparr>self := (self h)\<lparr>delta_log_path := Some (trial_dir (self h), generation)\<rparr>\<rparr> in
        case get_deltas E h0 of
          (input_delta, system_delta, h1) \<Rightarrow>
            let input_result = check_input E (snapshot h1) input_delta in
            if input_result \<noteq> PassResult then (Inr input_result, h1)
            else
              case check_resources E h1 of
                (Inl e, h2) \<Rightarrow> (Inl e, h2)
              | (Inr state_result, h2) \<Rightarrow>
                  (case check_operator_log E h2 of
                     (Inl e, h3) \<Rightarrow> (Inl e, h3)
                   | (Inr log_result, h3) \<Rightarrow>
                       let health_result = PassResult in
                       if is_InvalidInputResult log_result then (Inr log_result, h3)
                       else if is_ErrorResult health_result then (Inr health_result, h3)
                       else if is_ErrorResult state_result then (Inr state_result, h3)
                       else if is_ErrorResult log_result then (Inr log_result, h3)
                       else (Inr PassResult, h3)))"

section \<open>The health oracle\<close>

text \<open>
  \<open>check_health\<close>, which \<open>check\<close> does not call. It reads the snapshot only.
\<close>

text \<open>\<open>v.values()\<close> on a value: only a dictionary has the method.\<close>

definition py_values :: "pyval \<Rightarrow> exn + pyval list" where
  "py_values v = (case v of PDict kvs \<Rightarrow> Inr (dict_values kvs) | _ \<Rightarrow> Inl AttributeError)"

text \<open>\<open>v[a][b] == v[c][d]\<close>, and the \<open>and\<close> of two such tests (the right one is not
  evaluated when the left one is false).\<close>

definition eq_at :: "pyval \<Rightarrow> path \<Rightarrow> path \<Rightarrow> exn + bool" where
  "eq_at v p q =
     (case reduce_getitem p v of
        Inl e \<Rightarrow> Inl e
      | Inr a \<Rightarrow> (case reduce_getitem q v of Inl e \<Rightarrow> Inl e | Inr b \<Rightarrow> Inr (py_eq a b)))"

definition py_and :: "exn + bool \<Rightarrow> exn + bool \<Rightarrow> exn + bool" where
  "py_and a b = (case a of Inl e \<Rightarrow> Inl e | Inr False \<Rightarrow> Inr False | Inr True \<Rightarrow> b)"

definition sfs_healthy :: "pyval \<Rightarrow> exn + bool" where
  "sfs_healthy sfs =
     py_and (eq_at sfs [Key ''spec'', Key ''replicas''] [Key ''status'', Key ''replicas''])
       (py_and (eq_at sfs [Key ''status'', Key ''replicas''] [Key ''status'', Key ''ready_replicas''])
          (eq_at sfs [Key ''status'', Key ''current_revision''] [Key ''status'', Key ''update_revision'']))"

definition dp_healthy :: "pyval \<Rightarrow> exn + bool" where
  "dp_healthy dp =
     (case reduce_getitem [Key ''spec'', Key ''replicas''] dp of
        Inl e \<Rightarrow> Inl e
      | Inr n \<Rightarrow>
          if py_eq n (PInt 0) then Inr True
          else
            py_and (eq_at dp [Key ''spec'', Key ''replicas''] [Key ''status'', Key ''replicas''])
              (py_and (eq_at dp [Key ''status'', Key ''replicas''] [Key ''status'', Key ''ready_replicas''])
                 (eq_at dp [Key ''status'', Key ''ready_replicas'']
                    [Key ''status'', Key ''updated_replicas''])))"

definition pod_healthy :: "pyval \<Rightarrow> exn + bool" where
  "pod_healthy pod =
     (case reduce_getitem [Key ''status'', Key ''phase''] pod of
        Inl e \<Rightarrow> Inl e
      | Inr ph \<Rightarrow>
          Inr (py_eq ph (PStr ''Running'') \<or> py_eq ph (PStr ''Completed'')
               \<or> py_eq ph (PStr ''Succeeded'')))"

text \<open>One loop of \<open>check_health\<close>: the names of the resources that are not healthy.\<close>

fun unhealthy_loop :: "(pyval \<Rightarrow> exn + bool) \<Rightarrow> pyval list \<Rightarrow> exn + pyval list" where
  "unhealthy_loop healthy [] = Inr []"
| "unhealthy_loop healthy (r # rs) =
     (case healthy r of
        Inl e \<Rightarrow> Inl e
      | Inr True \<Rightarrow> unhealthy_loop healthy rs
      | Inr False \<Rightarrow>
          (case reduce_getitem [Key ''metadata'', Key ''name''] r of
             Inl e \<Rightarrow> Inl e
           | Inr n \<Rightarrow>
               (case unhealthy_loop healthy rs of Inl e \<Rightarrow> Inl e | Inr ns \<Rightarrow> Inr (n # ns))))"

definition unhealthy_of ::
  "(string \<times> pyval) list \<Rightarrow> string \<Rightarrow> (pyval \<Rightarrow> exn + bool) \<Rightarrow> exn + pyval list" where
  "unhealthy_of state kind healthy =
     (case map_of state kind of
        None \<Rightarrow> Inl KeyError
      | Some v \<Rightarrow> (case py_values v of Inl e \<Rightarrow> Inl e | Inr rs \<Rightarrow> unhealthy_loop healthy rs))"

text \<open>\<open>sep.join(xs)\<close>, which raises \<open>TypeError\<close> on an item that is not a string.\<close>

fun py_join :: "string \<Rightarrow> pyval list \<Rightarrow> exn + string" where
  "py_join sep [] = Inr []"
| "py_join sep (PStr s # rest) =
     (if rest = [] then Inr s
      else case py_join sep rest of Inl e \<Rightarrow> Inl e | Inr t \<Rightarrow> Inr (s @ sep @ t))"
| "py_join sep (v # rest) = Inl TypeError"

fun health_message :: "(string \<times> pyval list) list \<Rightarrow> exn + string" where
  "health_message [] = Inr []"
| "health_message ((kind, resources) # rest) =
     (if length resources \<noteq> 0
      then (case py_join '', '' resources of
              Inl e \<Rightarrow> Inl e
            | Inr names \<Rightarrow>
                (case health_message rest of
                   Inl e \<Rightarrow> Inl e
                 | Inr msg \<Rightarrow> Inr (kind @ '': '' @ names @ [CHR 0x0A] @ msg)))
      else health_message rest)"

definition check_health :: "Snapshot \<Rightarrow> exn + RunResult" where
  "check_health snap =
     (case unhealthy_of (system_state snap) ''stateful_set'' sfs_healthy of
        Inl e \<Rightarrow> Inl e
      | Inr sfs \<Rightarrow>
     (case unhealthy_of (system_state snap) ''deployment'' dp_healthy of
        Inl e \<Rightarrow> Inl e
      | Inr dps \<Rightarrow>
     (case unhealthy_of (system_state snap) ''pod'' pod_healthy of
        Inl e \<Rightarrow> Inl e
      | Inr pods \<Rightarrow>
     (case health_message [(''statefulset'', sfs), (''deployment'', dps), (''pod'', pods)] of
        Inl e \<Rightarrow> Inl e
      | Inr error_msg \<Rightarrow>
          if error_msg \<noteq> [] then Inr (ErrorResult SYSTEM_HEALTH error_msg None None)
          else Inr PassResult))))"

section \<open>Notions used in the statements\<close>

text \<open>
  The document that \<open>get_deltas\<close> diffs a resource kind against: the one the previous
  system state has, or the empty dictionary.
\<close>

definition doc_or_empty :: "(string \<times> pyval) list \<Rightarrow> string \<Rightarrow> pyval" where
  "doc_or_empty d k = (case map_of d k of None \<Rightarrow> PDict [] | Some p \<Rightarrow> p)"

text \<open>Two states of a checker with the same context, trial directory and delta log path.\<close>

definition same_attrs :: "Checker \<Rightarrow> Checker \<Rightarrow> bool" where
  "same_attrs C C' =
     (ctx C' = ctx C \<and> trial_dir C' = trial_dir C \<and> delta_log_path C' = delta_log_path C)"

text \<open>
  The outcomes on which the loop of the state oracle stops: an exception, or an error of
  the system state oracle.
\<close>

definition stops :: "exn + RunResult \<Rightarrow> bool" where
  "stops r =
     (case r of
        Inl e \<Rightarrow> True
      | Inr PassResult \<Rightarrow> False
      | Inr (ErrorResult t msg d m) \<Rightarrow> t = SYSTEM_STATE
      | Inr _ \<Rightarrow> False)"

text \<open>A matched delta whose change \<open>compare\<close> finds inconsistent with the input delta.\<close>

abbreviation inconsistent :: "env \<Rightarrow> Diff \<Rightarrow> Diff \<Rightarrow> bool" where
  "inconsistent E d m \<equiv> \<not> compare E (prev d) (curr d) (prev m) (curr m)"

text \<open>
  The heap once \<open>check\<close> has set \<open>self.delta_log_path\<close> for a generation, and the input
  delta of the two snapshots of a heap.
\<close>

definition with_log_path :: "heap \<Rightarrow> int \<Rightarrow> heap" where
  "with_log_path h generation =
     h\<lparr>self := (self h)\<lparr>delta_log_path := Some (trial_dir (self h), generation)\<rparr>\<rparr>"

definition input_delta_of :: "env \<Rightarrow> heap \<Rightarrow> delta_map" where
  "input_delta_of E h = input_diff E (input (prev_snapshot h)) (input (snapshot h))"

text \<open>
  The canonicalized suffix overlap of two paths, in the words of the spec: the number of
  atoms that the two paths share from their ends, two atoms being the same when
  \<open>canonicalize\<close> maps them to the same text.
\<close>

fun common_prefix_length :: "('a \<Rightarrow> 'a \<Rightarrow> bool) \<Rightarrow> 'a list \<Rightarrow> 'a list \<Rightarrow> nat" where
  "common_prefix_length eq (x # xs) (y # ys) =
     (if eq x y then Suc (common_prefix_length eq xs ys) else 0)"
| "common_prefix_length eq xs ys = 0"

definition suffix_overlap :: "env \<Rightarrow> path \<Rightarrow> path \<Rightarrow> nat" where
  "suffix_overlap E p q =
     common_prefix_length (\<lambda>a b. canonicalize E a = canonicalize E b) (rev p) (rev q)"

text \<open>
  An atom is generic when one of the regular expressions of \<open>GENERIC_FIELDS\<close> is found
  in its text.
\<close>

definition is_generic :: "env \<Rightarrow> atom \<Rightarrow> bool" where
  "is_generic E a = (\<exists>regex \<in> set (GENERIC_FIELDS E). regex (str_atom a))"

text \<open>
  The largest overlap with \<open>pth\<close> among the deltas \<open>ds\<close>, and at least \<open>m\<close>.
\<close>

definition max_overlap :: "env \<Rightarrow> path \<Rightarrow> Diff list \<Rightarrow> nat \<Rightarrow> nat" where
  "max_overlap E pth ds m = fold (\<lambda>d m. max m (suffix_overlap E pth (path d))) ds m"

text \<open>
  The system delta of the two snapshots of a heap.
\<close>

definition system_delta_of :: "env \<Rightarrow> heap \<Rightarrow> system_delta" where
  "system_delta_of E h = fst (snd (get_deltas E h))"

text \<open>
  The verdict \<open>Pass\<close> of the state oracle in the words of the spec: every input delta
  is equivalent, or skipped by the skip engine, or matched consistently. A delta is
  matched consistently when its match set is not empty and \<open>compare\<close> holds for every
  match, or when its match set is empty and the wildcard fallback finds a state delta
  that compares true. The skip engine is asked in the state of the checker that the
  deltas before have left, and has to answer (not raise), as has the path matching.
\<close>

definition consistent_match :: "env \<Rightarrow> Diff \<Rightarrow> system_delta \<Rightarrow> Diff list \<Rightarrow> bool" where
  "consistent_match E d sd ms =
     (if ms = [] then found_fallback E d sd
      else list_all (\<lambda>m. compare E (prev d) (curr d) (prev m) (curr m)) ms)"

fun every_delta_passes :: "env \<Rightarrow> Snapshot \<Rightarrow> system_delta \<Rightarrow> Diff list \<Rightarrow> Checker \<Rightarrow> bool" where
  "every_delta_passes E snap sd [] C = True"
| "every_delta_passes E snap sd (d # ds) C =
     (if input_compare E (prev d) (curr d) then every_delta_passes E snap sd ds C
      else
        case should_skip_input_delta E C d snap of
          (Inl e, C') \<Rightarrow> False
        | (Inr True, C') \<Rightarrow> every_delta_passes E snap sd ds C'
        | (Inr False, C') \<Rightarrow>
            (case list_matched_fields E (path d) sd of
               Inl e \<Rightarrow> False
             | Inr ms \<Rightarrow> consistent_match E d sd ms \<and> every_delta_passes E snap sd ds C'))"









section \<open>An example environment\<close>

text \<open>
  Concrete collaborators, a schema and snapshots on which the theorems below are
  instantiated: values are compared with \<open>==\<close>, an atom is canonicalized to its lower
  case text, \<open>name\<close> is the one generic field, a message is an invalid-input message
  when it contains \<open>invalid\<close>, every non-empty log line parses to an error record, the
  one known operator is \<open>==\<close>, a diff of two different documents is one changed value,
  no schema default can be looked up, and every delta log can be opened but those of
  the trial directory \<open>/readonly\<close>.
\<close>

definition E0 :: env where
  "E0 = \<lparr>input_compare = py_eq,
         compare = (\<lambda>ip ic sp sc. py_eq ic sc),
         canonicalize = (\<lambda>a. py_lower (str_atom a)),
         GENERIC_FIELDS = [\<lambda>s. s = ''name''],
         invalid_input_message =
           (\<lambda>msg d. (str_contains msg ''invalid'',
                      if str_contains msg ''invalid'' then Some [Key ''spec'', Key ''foo''] else None)),
         parse_log =
           (\<lambda>line. if line = [] then [] else [(''level'', PStr ''ERROR''), (''msg'', PStr line)]),
         translate_op =
           (\<lambda>s. if s = ''==''
                then Inr \<lparr>is_operator_eq = True, call = (\<lambda>a b. Inr (py_eq a b))\<rparr>
                else Inl ValueError),
         input_diff =
           (\<lambda>a b. if a = b then []
                  else [(''values_changed'',
                         [(''root'', \<lparr>prev = a, curr = b, path = [Key ''spec'', Key ''replicas'']\<rparr>)])]),
         state_diff =
           (\<lambda>a b. if a = b then []
                  else [(''values_changed'',
                         [(''root'', \<lparr>prev = a, curr = b,
                                      path = [Key ''db'', Key ''spec'', Key ''replicas'']\<rparr>)])]),
         schema_default = (\<lambda>p. Inl KeyError),
         writable = (\<lambda>p. fst p \<noteq> ''/readonly'')\<rparr>"

definition snap0 :: Snapshot where
  "snap0 = \<lparr>input = PInt 3, cli_stdout = ''configured'', cli_stderr = [],
            system_state = [], operator_log = []\<rparr>"

definition ctx0 :: acto_context where
  "ctx0 = \<lparr>namespace = ''ns'', enable_analysis = False, analysis_result = None\<rparr>"

definition checker0 :: Checker where
  "checker0 =
     \<lparr>ctx = \<lparr>ctx_namespace = ''ns'', ctx_enable_analysis = False, ctx_control_flow_fields = None\<rparr>,
      trial_dir = ''/trial'', field_conditions_map = [], field_lists = (\<lambda>a. []), next_list = 0,
      delta_log_path = None\<rparr>"

definition heap0 :: heap where
  "heap0 = \<lparr>self = checker0, snapshot = snap0, prev_snapshot = snap0, files = Map.empty\<rparr>"

text \<open>A snapshot with a deployment that is not healthy, after the empty snapshot.\<close>

definition web_deployment :: pyval where
  "web_deployment =
     PDict [(''metadata'', PDict [(''name'', PStr ''web'')]),
            (''spec'', PDict [(''replicas'', PInt 3)]),
            (''status'', PDict [(''replicas'', PInt 3), (''ready_replicas'', PInt 1),
                               (''updated_replicas'', PInt 3)])]"

definition snap_unhealthy :: Snapshot where
  "snap_unhealthy =
     \<lparr>input = PInt 3, cli_stdout = ''configured'', cli_stderr = [],
      system_state = [(''custom_resource_spec'', PDict []), (''stateful_set'', PDict []),
                      (''deployment'', PDict [(''web'', web_deployment)]), (''pod'', PDict [])],
      operator_log = []\<rparr>"

definition heap_unhealthy :: heap where
  "heap_unhealthy =
     \<lparr>self = checker0, snapshot = snap_unhealthy, prev_snapshot = snap0, files = Map.empty\<rparr>"

text \<open>
  Snapshots with a system state, after the empty snapshot: one whose apply command was
  refused a connection while the operator log reports an invalid input, one with the same
  log and a clean apply command, and one checked by a checker whose trial directory
  cannot be written to.
\<close>

definition snap1 :: Snapshot where
  "snap1 = \<lparr>input = PInt 3, cli_stdout = ''configured'', cli_stderr = [],
            system_state = [(''custom_resource_spec'', PDict [])], operator_log = []\<rparr>"

definition heap_refused :: heap where
  "heap_refused =
     \<lparr>self = checker0,
      snapshot = snap1\<lparr>cli_stderr := ''dial tcp: connection refused'',
                        operator_log := [''spec.foo is invalid'']\<rparr>,
      prev_snapshot = snap0, files = Map.empty\<rparr>"

definition heap_invalid_log :: heap where
  "heap_invalid_log =
     \<lparr>self = checker0, snapshot = snap1\<lparr>operator_log := [''spec.foo is invalid'']\<rparr>,
      prev_snapshot = snap0, files = Map.empty\<rparr>"

definition heap_readonly :: heap where
  "heap_readonly =
     \<lparr>self = checker0\<lparr>trial_dir := ''/readonly''\<rparr>, snapshot = snap1,
      prev_snapshot = snap0, files = Map.empty\<rparr>"

text \<open>
  Snapshots whose input changed from 3 to 5 while the system state holds a stateful
  set that does not follow the change, with and without a log line that reports an
  invalid input; the input delta and the state delta that the example diffs produce.
\<close>

definition snap_mismatch :: Snapshot where
  "snap_mismatch =
     \<lparr>input = PInt 5, cli_stdout = ''configured'', cli_stderr = [],
      system_state = [(''custom_resource_spec'', PDict []),
                      (''stateful_set'', PDict [(''db'', PInt 2)])],
      operator_log = []\<rparr>"

definition heap_mismatch :: heap where
  "heap_mismatch =
     \<lparr>self = checker0, snapshot = snap_mismatch, prev_snapshot = snap0, files = Map.empty\<rparr>"

definition heap_conflict :: heap where
  "heap_conflict =
     \<lparr>self = checker0, snapshot = snap_mismatch\<lparr>operator_log := [''spec.foo is invalid'']\<rparr>,
      prev_snapshot = snap0, files = Map.empty\<rparr>"

definition input_change :: Diff where
  "input_change = \<lparr>prev = PInt 3, curr = PInt 5, path = [Key ''spec'', Key ''replicas'']\<rparr>"

definition state_change :: Diff where
  "state_change = \<lparr>prev = PDict [], curr = PDict [(''db'', PInt 2)],
                    path = [Key ''db'', Key ''spec'', Key ''replicas'']\<rparr>"

text \<open>
  The same change with \<open>replicas\<close> as a generic field, a system state that follows
  the change of the input, and a system delta with three deltas.
\<close>

definition E_generic :: env where
  "E_generic = E0\<lparr>GENERIC_FIELDS := [\<lambda>s. s = ''replicas'']\<rparr>"

definition heap_follow :: heap where
  "heap_follow =
     \<lparr>self = checker0,
      snapshot = snap_mismatch\<lparr>system_state := [(''custom_resource_spec'', PDict []),
                                                (''stateful_set'', PInt 5)]\<rparr>,
      prev_snapshot = snap0, files = Map.empty\<rparr>"

definition state_follow :: Diff where
  "state_follow = \<lparr>prev = PDict [], curr = PInt 5,
                    path = [Key ''db'', Key ''spec'', Key ''replicas'']\<rparr>"

definition status_change :: Diff where
  "status_change = \<lparr>prev = PInt 1, curr = PInt 2,
                     path = [Key ''db'', Key ''status'', Key ''replicas'']\<rparr>"

definition delta_example :: system_delta where
  "delta_example =
     [(''stateful_set'', [(''values_changed'', [(''a'', status_change), (''b'', state_change)])]),
      (''pod'', [(''values_changed'', [(''c'', state_follow)])])]"

definition sd_mismatch :: system_delta where
  "sd_mismatch = [(''stateful_set'', [(''values_changed'', [(''root'', state_change)])])]"

definition sd_follow :: system_delta where
  "sd_follow = [(''stateful_set'', [(''values_changed'', [(''root'', state_follow)])])]"

text \<open>
  A schema in which the object \<open>spec\<close> lists its property \<open>tls\<close> before its property
  \<open>enabled\<close>, the checker that the constructor builds from it, and a snapshot in which
  \<open>spec.enabled\<close> is true, \<open>spec.tls.enabled\<close> is false and \<open>spec.tls.cert\<close> has
  changed.
\<close>

definition schema_nested :: schema where
  "schema_nested =
     ObjectSchema []
       [(''spec'', ObjectSchema [Key ''spec'']
          [(''tls'', ObjectSchema [Key ''spec'', Key ''tls'']
              [(''enabled'', OtherSchema), (''cert'', OtherSchema)]),
           (''enabled'', OtherSchema)])]"

definition input_tls_off :: pyval where
  "input_tls_off =
     PDict [(''spec'', PDict [(''enabled'', PBool True),
                              (''tls'', PDict [(''enabled'', PBool False),
                                                (''cert'', PStr ''new'')])])]"

definition snap_tls_off :: Snapshot where
  "snap_tls_off = \<lparr>input = input_tls_off, cli_stdout = ''configured'', cli_stderr = [],
                    system_state = [(''custom_resource_spec'', PDict [])], operator_log = []\<rparr>"

definition cert_change :: Diff where
  "cert_change = \<lparr>prev = PStr ''old'', curr = PStr ''new'',
                   path = [Key ''spec'', Key ''tls'', Key ''cert'']\<rparr>"

definition checker_nested :: Checker where
  "checker_nested =
     \<lparr>ctx = \<lparr>ctx_namespace = ''ns'', ctx_enable_analysis = False, ctx_control_flow_fields = None\<rparr>,
      trial_dir = ''/trial'',
      field_conditions_map =
        [([Key ''spec'', Key ''tls''],
          [\<lparr>cfield = 0, cop = ''=='', cvalue = PStr ''true''\<rparr>,
           \<lparr>cfield = 1, cop = ''=='', cvalue = PStr ''true''\<rparr>]),
         ([Key ''spec''], [\<lparr>cfield = 1, cop = ''=='', cvalue = PStr ''true''\<rparr>])],
      field_lists = (\<lambda>a. [])(0 := [Key ''spec'', Key ''tls'', Key ''enabled''],
                               1 := [Key ''spec'', Key ''enabled'']),
      next_list = 2, delta_log_path = None\<rparr>"








section \<open>Properties of the input oracle\<close>

text \<open>
  Claim C6. For every snapshot, \<open>check_input\<close> returns \<open>ConnectionRefused\<close> when stderr
  contains \<open>connection refused\<close>; otherwise \<open>InvalidInput\<close> with the responsible path
  when \<open>invalid_input_message\<close> signals invalid or stderr is not empty; otherwise
  \<open>Unchanged\<close> when stdout or stderr contains \<open>unchanged\<close>; otherwise \<open>Pass\<close>.
\<close>

theorem check_input_precedence:
  "check_input E snap input_delta =
     (if str_contains (cli_stderr snap) ''connection refused'' then ConnectionRefusedResult
      else if fst (invalid_input_message E (cli_stderr snap) input_delta) \<or> cli_stderr snap \<noteq> []
      then InvalidInputResult (snd (invalid_input_message E (cli_stderr snap) input_delta))
      else if str_contains (cli_stdout snap) ''unchanged''
              \<or> str_contains (cli_stderr snap) ''unchanged''
      then UnchangedInputResult
      else PassResult)"
  by (auto simp: check_input_def Let_def case_prod_beta)

theorem check_input_precedence_witness:
  "check_input E0 (snap0\<lparr>cli_stderr := ''error: connection refused''\<rparr>) [] = ConnectionRefusedResult
   \<and> check_input E0 (snap0\<lparr>cli_stderr := ''bad''\<rparr>) [] = InvalidInputResult None
   \<and> check_input E0 (snap0\<lparr>cli_stdout := ''x unchanged''\<rparr>) [] = UnchangedInputResult
   \<and> check_input E0 snap0 [] = PassResult"
  using check_input_precedence [of E0 "snap0\<lparr>cli_stderr := ''error: connection refused''\<rparr>" "[]"]
    check_input_precedence [of E0 "snap0\<lparr>cli_stderr := ''bad''\<rparr>" "[]"]
    check_input_precedence [of E0 "snap0\<lparr>cli_stdout := ''x unchanged''\<rparr>" "[]"]
    check_input_precedence [of E0 snap0 "[]"]
  by (simp add: snap0_def E0_def)

section \<open>Properties of the combined check\<close>

text \<open>
  Claim C10. If the system state of the snapshot is the empty mapping, \<open>check\<close> returns
  \<open>InvalidInput(None)\<close> at once: whatever the collaborators, the previous snapshot and
  the generation are, the checker, both snapshots and the delta logs are as they were
  (no delta log path set, no file written, nothing stored in the previous snapshot).
\<close>

theorem check_empty_system_state:
  "system_state (snapshot h) = [] \<Longrightarrow> check E h generation = (Inr (InvalidInputResult None), h)"
  by (simp add: check_def)

theorem check_empty_system_state_witness:
  "system_state (snapshot heap0) = [] \<and> check E0 heap0 7 = (Inr (InvalidInputResult None), heap0)"
proof -
  have e: "system_state (snapshot heap0) = []"
    by (simp add: heap0_def snap0_def)
  show ?thesis
    using e check_empty_system_state [OF e, of E0 7] by simp
qed

section \<open>Auxiliary facts\<close>

lemma map_of_dict_set: "map_of (dict_set d k v) = (map_of d)(k \<mapsto> v)"
  by (induction d) (auto simp: fun_eq_iff)


lemma doc_or_empty_dict_set:
  "map_of d k = None \<Longrightarrow> doc_or_empty (dict_set d k (PDict [])) = doc_or_empty d"
  by (auto simp: doc_or_empty_def map_of_dict_set fun_eq_iff)

lemma loop_snd:
  "snd (system_state_delta_loop E cs prv acc) =
     fold (\<lambda>rc a. dict_set a (fst rc) (state_diff E (doc_or_empty prv (fst rc)) (snd rc))) cs acc"
proof (induction cs arbitrary: prv acc)
  case Nil
  then show ?case by simp
next
  case (Cons rc cs)
  obtain r c where rc: "rc = (r, c)" by (cases rc)
  show ?case
  proof (cases "map_of prv r")
    case None
    then show ?thesis
      using Cons.IH [of "dict_set prv r (PDict [])"]
      by (simp add: rc doc_or_empty_dict_set) (simp add: doc_or_empty_def)
  next
    case (Some p)
    then show ?thesis
      using Cons.IH [of prv] by (simp add: rc doc_or_empty_def)
  qed
qed

lemma loop_fst_docs:
  "doc_or_empty (fst (system_state_delta_loop E cs prv acc)) = doc_or_empty prv"
proof (induction cs arbitrary: prv acc)
  case Nil
  then show ?case by simp
next
  case (Cons rc cs)
  obtain r c where rc: "rc = (r, c)" by (cases rc)
  show ?case
    by (cases "map_of prv r") (simp_all add: rc Cons.IH doc_or_empty_dict_set)
qed

lemma loop_fst_keeps:
  "map_of prv k \<noteq> None \<Longrightarrow> map_of (fst (system_state_delta_loop E cs prv acc)) k \<noteq> None"
proof (induction cs arbitrary: prv acc)
  case Nil
  then show ?case by simp
next
  case (Cons rc cs)
  obtain r c where rc: "rc = (r, c)" by (cases rc)
  show ?case
  proof (cases "map_of prv r")
    case None
    have "map_of (dict_set prv r (PDict [])) k \<noteq> None"
      using Cons.prems by (simp add: map_of_dict_set)
    then show ?thesis
      using None Cons.IH [of "dict_set prv r (PDict [])"] by (simp add: rc)
  next
    case (Some p)
    then show ?thesis
      using Cons.prems Cons.IH [of prv] by (simp add: rc)
  qed
qed

lemma loop_fst_covers:
  "k \<in> fst ` set cs \<Longrightarrow> map_of (fst (system_state_delta_loop E cs prv acc)) k \<noteq> None"
proof (induction cs arbitrary: prv acc)
  case Nil
  then show ?case by simp
next
  case (Cons rc cs)
  obtain r c where rc: "rc = (r, c)" by (cases rc)
  show ?case
  proof (cases "k = r")
    case True
    show ?thesis
    proof (cases "map_of prv r")
      case None
      have "map_of (dict_set prv r (PDict [])) k \<noteq> None"
        by (simp add: map_of_dict_set True)
      then show ?thesis
        using None loop_fst_keeps by (simp add: rc)
    next
      case (Some p)
      then show ?thesis
        using True loop_fst_keeps [of prv k] by (simp add: rc)
    qed
  next
    case False
    then have "k \<in> fst ` set cs" using Cons.prems by (auto simp: rc)
    then show ?thesis
      using Cons.IH by (cases "map_of prv r") (simp_all add: rc)
  qed
qed

lemma loop_fst_fixed:
  "\<forall>k \<in> fst ` set cs. map_of prv k \<noteq> None \<Longrightarrow> fst (system_state_delta_loop E cs prv acc) = prv"
proof (induction cs arbitrary: acc)
  case Nil
  then show ?case by simp
next
  case (Cons rc cs)
  obtain r c where rc: "rc = (r, c)" by (cases rc)
  from Cons.prems obtain p where "map_of prv r = Some p" by (auto simp: rc)
  then show ?case using Cons by (simp add: rc)
qed

lemma get_deltas_idem:
  assumes "get_deltas E h = (i, s, h1)"
  shows "get_deltas E h1 = (i, s, h1)"
proof -
  let ?l = "system_state_delta_loop E (system_state (snapshot h)) (system_state (prev_snapshot h)) []"
  have h1: "h1 = h\<lparr>prev_snapshot := (prev_snapshot h)\<lparr>system_state := fst ?l\<rparr>\<rparr>"
    and s: "s = snd ?l" and i: "i = input_diff E (input (prev_snapshot h)) (input (snapshot h))"
    using assms by (auto simp: get_deltas_def Let_def split: prod.splits)
  let ?l2 = "system_state_delta_loop E (system_state (snapshot h)) (fst ?l) []"
  have "\<forall>k \<in> fst ` set (system_state (snapshot h)). map_of (fst ?l) k \<noteq> None"
    using loop_fst_covers by blast
  then have f: "fst ?l2 = fst ?l" by (rule loop_fst_fixed)
  have g: "snd ?l2 = snd ?l"
    by (simp add: loop_snd loop_fst_docs)
  show ?thesis
    unfolding get_deltas_def Let_def
    by (simp add: h1 s i split: prod.splits) (metis f g fst_conv snd_conv)
qed

lemma check_resources_idem:
  assumes "get_deltas E h = (i, s, h1)"
  shows "check_resources E h1 = check_resources E h"
  using assms get_deltas_idem [OF assms] by (simp add: check_resources_def)

lemma check_operator_log_eq:
  "fst (check_operator_log E h) =
     operator_log_loop E (input_diff E (input (prev_snapshot h)) (input (snapshot h)))
       (operator_log (snapshot h))"
  by (simp add: check_operator_log_def get_deltas_def Let_def split: prod.splits)

lemma get_deltas_input:
  "fst (get_deltas E h) = input_diff E (input (prev_snapshot h)) (input (snapshot h))"
  by (simp add: get_deltas_def Let_def split: prod.splits)

lemma get_deltas_frame:
  "get_deltas E h = (i, s, h1) \<Longrightarrow>
     snapshot h1 = snapshot h \<and> self h1 = self h \<and> files h1 = files h
     \<and> input (prev_snapshot h1) = input (prev_snapshot h)"
  by (auto simp: get_deltas_def Let_def split: prod.splits)

lemma check_conditions_at_attrs:
  "same_attrs C (snd (check_conditions_at E inp key C))"
  by (simp add: check_conditions_at_def same_attrs_def split: option.splits prod.splits)

lemma should_skip_attrs:
  "same_attrs C (snd (should_skip_input_delta E C d snap))"
proof -
  have r: "same_attrs C C" by (simp add: same_attrs_def)
  let ?x = "(if path d \<in> set (dict_keys (field_conditions_map C))
              then check_conditions_at E (input snap) (path d) C
              else (case find_nearest_parent (path d) (dict_keys (field_conditions_map C)) of
                      None \<Rightarrow> (Inr False, C)
                    | Some parent \<Rightarrow> check_conditions_at E (input snap) parent C))"
  have x: "same_attrs C (snd ?x)"
    using check_conditions_at_attrs r by (simp split: option.splits)
  show ?thesis
    unfolding should_skip_input_delta_def
    using r x by (cases ?x) (auto split: sum.splits bool.splits)
qed

lemma cd_equivalent:
  "input_compare E (prev d) (curr d) \<Longrightarrow>
     check_deltas E snap sd (d # ds) C = check_deltas E snap sd ds C"
  by simp

lemma cd_skip_raises:
  "\<not> input_compare E (prev d) (curr d) \<Longrightarrow> should_skip_input_delta E C d snap = (Inl e, C') \<Longrightarrow>
     check_deltas E snap sd (d # ds) C = (Inl e, C')"
  by simp

lemma cd_skipped:
  "\<not> input_compare E (prev d) (curr d) \<Longrightarrow> should_skip_input_delta E C d snap = (Inr True, C') \<Longrightarrow>
     check_deltas E snap sd (d # ds) C = check_deltas E snap sd ds C'"
  by simp

lemma cd_match_raises:
  "\<not> input_compare E (prev d) (curr d) \<Longrightarrow> should_skip_input_delta E C d snap = (Inr False, C') \<Longrightarrow>
   list_matched_fields E (path d) sd = Inl e \<Longrightarrow>
     check_deltas E snap sd (d # ds) C = (Inl e, C')"
  by simp

lemma cd_inconsistent:
  "\<not> input_compare E (prev d) (curr d) \<Longrightarrow> should_skip_input_delta E C d snap = (Inr False, C') \<Longrightarrow>
   list_matched_fields E (path d) sd = Inr ms \<Longrightarrow> find (inconsistent E d) ms = Some m \<Longrightarrow>
     check_deltas E snap sd (d # ds) C =
       (Inr (ErrorResult SYSTEM_STATE ''Matched delta inconsistent with input delta'' (Some d) (Some m)), C')"
  by simp

lemma cd_consistent:
  "\<not> input_compare E (prev d) (curr d) \<Longrightarrow> should_skip_input_delta E C d snap = (Inr False, C') \<Longrightarrow>
   list_matched_fields E (path d) sd = Inr ms \<Longrightarrow> find (inconsistent E d) ms = None \<Longrightarrow> ms \<noteq> [] \<Longrightarrow>
     check_deltas E snap sd (d # ds) C = check_deltas E snap sd ds C'"
  by simp

lemma cd_fallback:
  "\<not> input_compare E (prev d) (curr d) \<Longrightarrow> should_skip_input_delta E C d snap = (Inr False, C') \<Longrightarrow>
   list_matched_fields E (path d) sd = Inr [] \<Longrightarrow> found_fallback E d sd \<Longrightarrow>
     check_deltas E snap sd (d # ds) C = check_deltas E snap sd ds C'"
  by simp

lemma cd_no_match:
  "\<not> input_compare E (prev d) (curr d) \<Longrightarrow> should_skip_input_delta E C d snap = (Inr False, C') \<Longrightarrow>
   list_matched_fields E (path d) sd = Inr [] \<Longrightarrow> \<not> found_fallback E d sd \<Longrightarrow>
     check_deltas E snap sd (d # ds) C =
       (Inr (ErrorResult SYSTEM_STATE ''Found no matching fields for input'' (Some d) None), C')"
  by simp

declare check_deltas.simps(2) [simp del]

lemma check_deltas_step:
  "\<exists>C'. (C' = C \<or> C' = snd (should_skip_input_delta E C d snap))
     \<and> (check_deltas E snap sd (d # ds) C = check_deltas E snap sd ds C'
        \<or> (\<exists>r. check_deltas E snap sd (d # ds) C = (r, C') \<and> stops r))"
proof (cases "input_compare E (prev d) (curr d)")
  case True
  show ?thesis
    by (rule exI [of _ C]) (simp add: cd_equivalent [OF True])
next
  case ne: False
  obtain r C' where s: "should_skip_input_delta E C d snap = (r, C')"
    by (cases "should_skip_input_delta E C d snap")
  have c: "C' = C \<or> C' = snd (should_skip_input_delta E C d snap)"
    by (simp add: s)
  have goal: "check_deltas E snap sd (d # ds) C = check_deltas E snap sd ds C'
        \<or> (\<exists>r. check_deltas E snap sd (d # ds) C = (r, C') \<and> stops r)"
  proof (cases r)
    case (Inl e)
    have "check_deltas E snap sd (d # ds) C = (Inl e, C')"
      using ne s Inl by (simp add: cd_skip_raises)
    moreover have "stops (Inl e)" by (simp add: stops_def)
    ultimately show ?thesis by blast
  next
    case (Inr b)
    show ?thesis
    proof (cases b)
      case True
      then show ?thesis using ne s Inr by (simp add: cd_skipped)
    next
      case nb: False
      have s': "should_skip_input_delta E C d snap = (Inr False, C')"
        using s Inr nb by simp
      show ?thesis
      proof (cases "list_matched_fields E (path d) sd")
        case (Inl e)
        have "check_deltas E snap sd (d # ds) C = (Inl e, C')"
          by (rule cd_match_raises [OF ne s' Inl])
        moreover have "stops (Inl e)" by (simp add: stops_def)
        ultimately show ?thesis by blast
      next
        case ms: (Inr ms)
        show ?thesis
        proof (cases "find (inconsistent E d) ms")
          case (Some m)
          have "stops (Inr (ErrorResult SYSTEM_STATE ''Matched delta inconsistent with input delta'' (Some d) (Some m)))"
            by (simp add: stops_def)
          then show ?thesis
            using cd_inconsistent [OF ne s' ms Some] by blast
        next
          case None
          show ?thesis
          proof (cases "ms = []")
            case False
            then show ?thesis using cd_consistent [OF ne s' ms None] by simp
          next
            case True
            show ?thesis
            proof (cases "found_fallback E d sd")
              case True
              then show ?thesis using cd_fallback [OF ne s' _ True] ms \<open>ms = []\<close> by simp
            next
              case False
              have "stops (Inr (ErrorResult SYSTEM_STATE ''Found no matching fields for input'' (Some d) None))"
                by (simp add: stops_def)
              then show ?thesis
                using cd_no_match [OF ne s' _ False] ms \<open>ms = []\<close> by blast
            qed
          qed
        qed
      qed
    qed
  qed
  show ?thesis
    using c goal by blast
qed

lemma same_attrs_refl: "same_attrs C C"
  by (simp add: same_attrs_def)

lemma same_attrs_trans: "same_attrs A B \<Longrightarrow> same_attrs B C \<Longrightarrow> same_attrs A C"
  by (simp add: same_attrs_def)

lemma check_deltas_attrs:
  "same_attrs C (snd (check_deltas E snap sd ds C))"
proof (induction ds arbitrary: C)
  case Nil
  then show ?case by (simp add: same_attrs_def)
next
  case (Cons d ds)
  from check_deltas_step [of C E d snap sd ds]
  obtain C' where c: "C' = C \<or> C' = snd (should_skip_input_delta E C d snap)"
    and st: "check_deltas E snap sd (d # ds) C = check_deltas E snap sd ds C'
        \<or> (\<exists>r. check_deltas E snap sd (d # ds) C = (r, C') \<and> stops r)"
    by (elim exE conjE)
  have a: "same_attrs C C'"
    using c should_skip_attrs [of C E d snap] same_attrs_refl [of C] by (elim disjE) simp_all
  from st show ?case
  proof (elim disjE exE conjE)
    assume "check_deltas E snap sd (d # ds) C = check_deltas E snap sd ds C'"
    then show ?thesis
      using same_attrs_trans [OF a Cons.IH [of C']] by simp
  next
    fix r assume "check_deltas E snap sd (d # ds) C = (r, C')"
    then show ?thesis using a by simp
  qed
qed

lemma check_deltas_stops:
  "fst (check_deltas E snap sd ds C) = Inr PassResult \<or> stops (fst (check_deltas E snap sd ds C))"
proof (induction ds arbitrary: C)
  case Nil
  then show ?case by simp
next
  case (Cons d ds)
  from check_deltas_step [of C E d snap sd ds]
  obtain C' where st: "check_deltas E snap sd (d # ds) C = check_deltas E snap sd ds C'
        \<or> (\<exists>r. check_deltas E snap sd (d # ds) C = (r, C') \<and> stops r)"
    by (elim exE conjE)
  from st show ?case
  proof (elim disjE exE conjE)
    assume "check_deltas E snap sd (d # ds) C = check_deltas E snap sd ds C'"
    then show ?thesis using Cons.IH [of C'] by simp
  next
    fix r assume "check_deltas E snap sd (d # ds) C = (r, C')" and "stops r"
    then show ?thesis by simp
  qed
qed

lemma check_resources_stops:
  "fst (check_resources E h) = Inr PassResult \<or> stops (fst (check_resources E h))"
proof -
  obtain i s h1 where g: "get_deltas E h = (i, s, h1)" by (cases "get_deltas E h") auto
  show ?thesis
  proof (cases "delta_log_path (self h1)")
    case None
    then show ?thesis using g by (simp add: check_resources_def stops_def)
  next
    case (Some p)
    show ?thesis
    proof (cases "writable E p")
      case False
      then show ?thesis using g Some by (simp add: check_resources_def stops_def)
    next
      case True
      show ?thesis
      proof (cases "dict_pop s ''custom_resource_spec''")
        case (Inl e)
        then show ?thesis using g Some True by (simp add: check_resources_def stops_def)
      next
        case (Inr sd)
        obtain r C' where c: "check_deltas E (snapshot h1) sd (input_deltas i) (self h1) = (r, C')"
          by (cases "check_deltas E (snapshot h1) sd (input_deltas i) (self h1)")
        show ?thesis
          using g Some True Inr c check_deltas_stops [of E "snapshot h1" sd "input_deltas i" "self h1"]
          by (simp add: check_resources_def Let_def)
      qed
    qed
  qed
qed

lemma log_values_loop_result:
  "log_values_loop E i vs = Some r \<Longrightarrow> is_InvalidInputResult r"
proof (induction vs)
  case Nil
  then show ?case by simp
next
  case (Cons v vs)
  show ?case
  proof (cases v)
    case (PStr s)
    obtain b p where m: "invalid_input_message E s i = (b, p)"
      by (cases "invalid_input_message E s i")
    show ?thesis
      using Cons PStr m by (cases "s = []"; cases b) auto
  qed (use Cons in auto)
qed

lemma operator_log_loop_result:
  "operator_log_loop E i ls = Inr r \<Longrightarrow> r = PassResult \<or> is_InvalidInputResult r"
proof (induction ls)
  case Nil
  then show ?case by simp
next
  case (Cons l ls)
  show ?case
  proof (cases "parse_log E l = []")
    case True
    then show ?thesis using Cons by simp
  next
    case False
    show ?thesis
    proof (cases "map_of (parse_log E l) ''level''")
      case None
      then show ?thesis using Cons.prems False by (simp add: Let_def)
    next
      case (Some lv)
      show ?thesis
      proof (cases lv)
        case (PStr level)
        show ?thesis
        proof (cases "py_lower level \<noteq> ''warn'' \<and> py_lower level \<noteq> ''error'' \<and> py_lower level \<noteq> ''fatal''")
          case True
          then show ?thesis using Cons False Some PStr by (simp add: Let_def)
        next
          case nl: False
          show ?thesis
          proof (cases "log_values_loop E i (dict_values (parse_log E l))")
            case None
            then show ?thesis using Cons False Some PStr nl by (simp add: Let_def)
          next
            case (Some r')
            then have "r = r'"
              using Cons.prems False \<open>map_of (parse_log E l) ''level'' = Some lv\<close> PStr nl
              by (simp add: Let_def)
            then show ?thesis using log_values_loop_result [OF Some] by simp
          qed
        qed
      qed (use Cons.prems False Some in \<open>simp_all add: Let_def\<close>)
    qed
  qed
qed

lemma check_resources_frame:
  "snapshot (snd (check_resources E h)) = snapshot h
   \<and> input (prev_snapshot (snd (check_resources E h))) = input (prev_snapshot h)"
proof -
  obtain i s h1 where g: "get_deltas E h = (i, s, h1)" by (cases "get_deltas E h") auto
  note f = get_deltas_frame [OF g]
  show ?thesis
  proof (cases "delta_log_path (self h1)")
    case None
    then show ?thesis using g f by (simp add: check_resources_def)
  next
    case (Some p)
    show ?thesis
    proof (cases "writable E p")
      case False
      then show ?thesis using g f Some by (simp add: check_resources_def)
    next
      case True
      show ?thesis
      proof (cases "dict_pop s ''custom_resource_spec''")
        case (Inl e)
        then show ?thesis using g f Some True by (simp add: check_resources_def)
      next
        case (Inr sd)
        obtain r C' where c: "check_deltas E (snapshot h1) sd (input_deltas i) (self h1) = (r, C')"
          by (cases "check_deltas E (snapshot h1) sd (input_deltas i) (self h1)")
        show ?thesis
          using g f Some True Inr c by (simp add: check_resources_def Let_def)
      qed
    qed
  qed
qed

lemma check_verdict:
  assumes ne: "system_state (snapshot h) \<noteq> []"
  shows "fst (check E h g) =
     (if check_input E (snapshot h) (input_delta_of E h) \<noteq> PassResult
      then Inr (check_input E (snapshot h) (input_delta_of E h))
      else case fst (check_resources E (with_log_path h g)) of
             Inl e \<Rightarrow> Inl e
           | Inr state_result \<Rightarrow>
               (case operator_log_loop E (input_delta_of E h) (operator_log (snapshot h)) of
                  Inl e \<Rightarrow> Inl e
                | Inr log_result \<Rightarrow>
                    Inr (if is_InvalidInputResult log_result then log_result
                         else if is_ErrorResult state_result then state_result
                         else PassResult)))"
proof -
  let ?h0 = "with_log_path h g"
  obtain i s h1 where g: "get_deltas E ?h0 = (i, s, h1)" by (cases "get_deltas E ?h0") auto
  have i: "i = input_delta_of E h"
    using get_deltas_input [of E ?h0] g by (simp add: input_delta_of_def with_log_path_def)
  have s1: "snapshot h1 = snapshot h"
    using get_deltas_frame [OF g] by (simp add: with_log_path_def)
  have cr: "check_resources E h1 = check_resources E ?h0"
    by (rule check_resources_idem [OF g])
  obtain rs h2 where r: "check_resources E ?h0 = (rs, h2)" by (cases "check_resources E ?h0")
  have f2: "snapshot h2 = snapshot h \<and> input (prev_snapshot h2) = input (prev_snapshot h)"
    using check_resources_frame [of E ?h0] r by (simp add: with_log_path_def)
  obtain rl h3 where l: "check_operator_log E h2 = (rl, h3)" by (cases "check_operator_log E h2")
  have rl: "rl = operator_log_loop E (input_delta_of E h) (operator_log (snapshot h))"
    using check_operator_log_eq [of E h2] l f2 by (simp add: input_delta_of_def)
  have c: "check E h g =
      (if check_input E (snapshot h) i \<noteq> PassResult then (Inr (check_input E (snapshot h) i), h1)
       else case rs of Inl e \<Rightarrow> (Inl e, h2)
            | Inr state_result \<Rightarrow>
               (case rl of Inl e \<Rightarrow> (Inl e, h3)
                | Inr log_result \<Rightarrow>
                   if is_InvalidInputResult log_result then (Inr log_result, h3)
                   else if is_ErrorResult state_result then (Inr state_result, h3)
                   else if is_ErrorResult log_result then (Inr log_result, h3)
                   else (Inr PassResult, h3)))"
    using ne g s1 cr r l
    by (cases rs; cases rl) (simp_all add: check_def Let_def with_log_path_def [symmetric])
  have nerr: "\<And>lr. rl = Inr lr \<Longrightarrow> \<not> is_InvalidInputResult lr \<Longrightarrow> \<not> is_ErrorResult lr"
  proof -
    fix lr assume a: "rl = Inr lr" and b: "\<not> is_InvalidInputResult lr"
    have "operator_log_loop E (input_delta_of E h) (operator_log (snapshot h)) = Inr lr"
      using a rl by simp
    from operator_log_loop_result [OF this] b show "\<not> is_ErrorResult lr" by auto
  qed
  have fc: "fst (check E h g) =
     (if check_input E (snapshot h) i \<noteq> PassResult
      then Inr (check_input E (snapshot h) i)
      else case rs of
             Inl e \<Rightarrow> Inl e
           | Inr state_result \<Rightarrow>
               (case rl of
                  Inl e \<Rightarrow> Inl e
                | Inr log_result \<Rightarrow>
                    Inr (if is_InvalidInputResult log_result then log_result
                         else if is_ErrorResult state_result then state_result
                         else PassResult)))"
  proof (cases rs)
    case (Inl e)
    then show ?thesis by (simp add: c)
  next
    case (Inr sr)
    show ?thesis
    proof (cases rl)
      case (Inl e)
      then show ?thesis using Inr by (simp add: c)
    next
      case lr: (Inr lr)
      show ?thesis using Inr lr nerr [OF lr] by (simp add: c)
    qed
  qed
  have rs: "rs = fst (check_resources E ?h0)" using r by simp
  show ?thesis
    unfolding fc i rs rl ..
qed

section \<open>The verdict of the combined check\<close>

text \<open>The definitions that evaluating the example heaps unfolds.\<close>

lemmas ex_defs = heap_unhealthy_def snap_unhealthy_def snap0_def snap1_def checker0_def E0_def
  heap_refused_def heap_invalid_log_def heap_readonly_def heap_mismatch_def heap_conflict_def
  snap_mismatch_def
lemmas skip_defs = should_skip_input_delta_def default_value_skip_def control_flow_skip_def
  find_nearest_parent_def
lemmas match_defs = list_matched_fields_def state_deltas_def list_index_def found_fallback_def
  match_loop.simps
lemmas run_defs = check_def get_deltas_def check_input_def check_resources_def
  check_operator_log_def Let_def input_deltas_def dict_values_def dict_pop_def dict_keys_def
  input_delta_of_def with_log_path_def py_lower_def lower_char_def

lemma check_resources_not_writable:
  assumes "\<not> writable E (trial_dir (self h), g)"
  shows "fst (check_resources E (with_log_path h g)) = Inl OSError"
proof -
  obtain i s h1 where gd: "get_deltas E (with_log_path h g) = (i, s, h1)"
    by (cases "get_deltas E (with_log_path h g)") auto
  have "delta_log_path (self h1) = Some (trial_dir (self h), g)"
    using get_deltas_frame [OF gd] by (simp add: with_log_path_def)
  then show ?thesis using gd assms by (simp add: check_resources_def)
qed

text \<open>
  Claim C9. For every pair of snapshots, every generation and every configuration,
  \<open>check\<close> never returns an \<open>Error\<close> verdict with the oracle tag \<open>SYSTEM_HEALTH\<close>:
  the health verdict inside \<open>check\<close> is the constant \<open>Pass\<close>, and \<open>check_health\<close> is
  not called. The theorem instantiated below is on a snapshot for which \<open>check_health\<close>
  itself reports the unhealthy deployment, while \<open>check\<close> passes.
\<close>

theorem check_never_health_error:
  "fst (check E h generation) \<noteq> Inr (ErrorResult SYSTEM_HEALTH msg d m)"
proof (cases "system_state (snapshot h) = []")
  case True
  then show ?thesis by (simp add: check_def)
next
  case False
  let ?ir = "check_input E (snapshot h) (input_delta_of E h)"
  have ir: "?ir \<noteq> ErrorResult SYSTEM_HEALTH msg d m"
    by (simp add: check_input_def Let_def case_prod_beta)
  show ?thesis
  proof (cases "?ir \<noteq> PassResult")
    case True
    then show ?thesis using ir by (simp add: check_verdict [OF False])
  next
    case pass: False
    show ?thesis
    proof (cases "fst (check_resources E (with_log_path h generation))")
      case (Inl e)
      then show ?thesis using pass by (simp add: check_verdict [OF False])
    next
      case (Inr sr)
      have sr: "sr \<noteq> ErrorResult SYSTEM_HEALTH msg d m"
        using check_resources_stops [of E "with_log_path h generation"] Inr
        by (auto simp: stops_def)
      show ?thesis
      proof (cases "operator_log_loop E (input_delta_of E h) (operator_log (snapshot h))")
        case (Inl e)
        then show ?thesis using pass Inr by (simp add: check_verdict [OF False])
      next
        case lr: (Inr lr)
        have "lr = PassResult \<or> is_InvalidInputResult lr"
          by (rule operator_log_loop_result [OF lr])
        then have "lr \<noteq> ErrorResult SYSTEM_HEALTH msg d m" by auto
        then show ?thesis using pass Inr lr sr by (simp add: check_verdict [OF False])
      qed
    qed
  qed
qed

theorem check_never_health_error_witness:
  "check_health (snapshot heap_unhealthy) =
     Inr (ErrorResult SYSTEM_HEALTH (''deployment: web'' @ [CHR 0x0A]) None None)
   \<and> fst (check E0 heap_unhealthy 0) = Inr PassResult
   \<and> fst (check E0 heap_unhealthy 0)
       \<noteq> Inr (ErrorResult SYSTEM_HEALTH (''deployment: web'' @ [CHR 0x0A]) None None)"
proof -
  have a: "check_health (snapshot heap_unhealthy) =
     Inr (ErrorResult SYSTEM_HEALTH (''deployment: web'' @ [CHR 0x0A]) None None)"
    by (simp add: check_health_def heap_unhealthy_def snap_unhealthy_def unhealthy_of_def
        py_values_def dict_values_def dp_healthy_def web_deployment_def eq_at_def py_and_def)
  have b: "fst (check E0 heap_unhealthy 0) = Inr PassResult"
    by (simp add: ex_defs run_defs)
  show ?thesis
    using a b check_never_health_error [of E0 heap_unhealthy 0 "''deployment: web'' @ [CHR 0x0A]" None None]
    by simp
qed

text \<open>
  Claim C2 as stated fails: an \<open>InvalidInput\<close> verdict of the log oracle is not returned
  in preference to \<open>ConnectionRefused\<close>. On this heap the log oracle's verdict is
  \<open>InvalidInput\<close>, and \<open>check\<close> returns \<open>ConnectionRefused\<close>: it returns the verdict of the
  input oracle, when that is not \<open>Pass\<close>, before the log oracle runs.
\<close>

theorem check_precedence_counterexample:
  "fst (check_operator_log E0 heap_refused) = Inr (InvalidInputResult (Some [Key ''spec'', Key ''foo'']))
   \<and> fst (check E0 heap_refused 0) = Inr ConnectionRefusedResult"
  by (simp add: ex_defs run_defs)

text \<open>
  Claim C2, amended. When the system state of the snapshot is empty, \<open>check\<close> returns
  \<open>InvalidInput(None)\<close> before any oracle runs. Otherwise \<open>check\<close> returns the verdict
  of the input oracle whenever that verdict is not \<open>Pass\<close> (so \<open>ConnectionRefused\<close>,
  \<open>InvalidInput\<close> and \<open>Unchanged\<close> of the input oracle come first, in the precedence of
  the input oracle itself); when the input oracle passes and the state and log oracles
  return, \<open>InvalidInput\<close> of the log oracle is returned first, then \<open>Error\<close> of the state
  oracle, otherwise \<open>Pass\<close> (the health verdict is always \<open>Pass\<close> and the log oracle never
  returns \<open>Error\<close>).
\<close>

theorem check_precedence:
  "(system_state (snapshot h) = [] \<longrightarrow>
      fst (check E h generation) = Inr (InvalidInputResult None))
   \<and> (system_state (snapshot h) \<noteq> [] \<longrightarrow>
      check_input E (snapshot h) (input_delta_of E h) \<noteq> PassResult \<longrightarrow>
        fst (check E h generation) = Inr (check_input E (snapshot h) (input_delta_of E h)))
   \<and> (system_state (snapshot h) \<noteq> [] \<longrightarrow>
      check_input E (snapshot h) (input_delta_of E h) = PassResult \<longrightarrow>
      fst (check_resources E (with_log_path h generation)) = Inr state_result \<longrightarrow>
      fst (check_operator_log E h) = Inr log_result \<longrightarrow>
        fst (check E h generation) =
          Inr (if is_InvalidInputResult log_result then log_result
               else if is_ErrorResult state_result then state_result
               else PassResult))"
proof (cases "system_state (snapshot h) = []")
  case True
  then show ?thesis by (simp add: check_def)
next
  case False
  then show ?thesis
    by (simp add: check_verdict [OF False] check_operator_log_eq input_delta_of_def)
qed

theorem check_precedence_witness:
  "system_state (snapshot heap0) = []
   \<and> fst (check E0 heap0 0) = Inr (InvalidInputResult None)
   \<and> system_state (snapshot heap_refused) \<noteq> []
   \<and> check_input E0 (snapshot heap_refused) (input_delta_of E0 heap_refused) = ConnectionRefusedResult
   \<and> fst (check E0 heap_refused 0) = Inr ConnectionRefusedResult
   \<and> system_state (snapshot heap_conflict) \<noteq> []
   \<and> check_input E0 (snapshot heap_conflict) (input_delta_of E0 heap_conflict) = PassResult
   \<and> fst (check_resources E0 (with_log_path heap_conflict 0)) =
        Inr (ErrorResult SYSTEM_STATE ''Matched delta inconsistent with input delta''
              (Some input_change) (Some state_change))
   \<and> fst (check_operator_log E0 heap_conflict) = Inr (InvalidInputResult (Some [Key ''spec'', Key ''foo'']))
   \<and> fst (check E0 heap_conflict 0) = Inr (InvalidInputResult (Some [Key ''spec'', Key ''foo'']))
   \<and> system_state (snapshot heap_mismatch) \<noteq> []
   \<and> check_input E0 (snapshot heap_mismatch) (input_delta_of E0 heap_mismatch) = PassResult
   \<and> fst (check_operator_log E0 heap_mismatch) = Inr PassResult
   \<and> fst (check E0 heap_mismatch 0) =
        Inr (ErrorResult SYSTEM_STATE ''Matched delta inconsistent with input delta''
              (Some input_change) (Some state_change))"
proof -
  have n0: "system_state (snapshot heap0) = []" by (simp add: ex_defs heap0_def)
  have n1: "system_state (snapshot heap_refused) \<noteq> []" by (simp add: ex_defs)
  have i1: "check_input E0 (snapshot heap_refused) (input_delta_of E0 heap_refused) = ConnectionRefusedResult"
    by (simp add: ex_defs run_defs)
  have n2: "system_state (snapshot heap_conflict) \<noteq> []" by (simp add: ex_defs)
  have i2: "check_input E0 (snapshot heap_conflict) (input_delta_of E0 heap_conflict) = PassResult"
    by (simp add: ex_defs run_defs)
  have s2: "fst (check_resources E0 (with_log_path heap_conflict 0)) =
      Inr (ErrorResult SYSTEM_STATE ''Matched delta inconsistent with input delta''
            (Some input_change) (Some state_change))"
    by (simp add: ex_defs run_defs input_change_def state_change_def
        check_deltas.simps skip_defs match_defs)
  have l2: "fst (check_operator_log E0 heap_conflict) = Inr (InvalidInputResult (Some [Key ''spec'', Key ''foo'']))"
    by (simp add: ex_defs run_defs)
  have n3: "system_state (snapshot heap_mismatch) \<noteq> []" by (simp add: ex_defs)
  have i3: "check_input E0 (snapshot heap_mismatch) (input_delta_of E0 heap_mismatch) = PassResult"
    by (simp add: ex_defs run_defs)
  have s3: "fst (check_resources E0 (with_log_path heap_mismatch 0)) =
      Inr (ErrorResult SYSTEM_STATE ''Matched delta inconsistent with input delta''
            (Some input_change) (Some state_change))"
    by (simp add: ex_defs run_defs input_change_def state_change_def
        check_deltas.simps skip_defs match_defs)
  have l3: "fst (check_operator_log E0 heap_mismatch) = Inr PassResult"
    by (simp add: ex_defs run_defs)
  show ?thesis
    using n0 n1 i1 n2 i2 s2 l2 n3 i3 s3 l3
      check_precedence [of heap0 E0 0]
      check_precedence [of heap_refused E0 0]
      check_precedence [of heap_conflict E0 0
        "ErrorResult SYSTEM_STATE ''Matched delta inconsistent with input delta''
           (Some input_change) (Some state_change)"
        "InvalidInputResult (Some [Key ''spec'', Key ''foo''])"]
      check_precedence [of heap_mismatch E0 0
        "ErrorResult SYSTEM_STATE ''Matched delta inconsistent with input delta''
           (Some input_change) (Some state_change)"
        PassResult]
    by simp
qed

text \<open>
  Claim C8 as stated fails: the delta log is opened outside any \<open>try\<close>, so a failure
  to open it escapes \<open>check\<close> as an exception.
\<close>

theorem check_exception_counterexample:
  "fst (check E0 heap_readonly 0) = Inl OSError"
  by (simp add: ex_defs run_defs)

text \<open>
  Claim C8, amended. \<open>check\<close> returns a \<open>RunResult\<close> unless the system state is not
  empty, the input oracle passes and \<open>check_resources\<close> or \<open>check_operator_log\<close> raises:
  an exception \<open>e\<close> escapes \<open>check\<close> exactly when \<open>check_resources\<close> raises \<open>e\<close>, or
  returns and \<open>check_operator_log\<close> raises \<open>e\<close>. In particular a failure to open the
  delta log is not logged and ignored: on that path \<open>check\<close> raises \<open>OSError\<close>.
\<close>

theorem check_exceptions:
  "(fst (check E h generation) = Inl e) =
     (system_state (snapshot h) \<noteq> []
      \<and> check_input E (snapshot h) (input_delta_of E h) = PassResult
      \<and> (fst (check_resources E (with_log_path h generation)) = Inl e
         \<or> ((\<exists>r. fst (check_resources E (with_log_path h generation)) = Inr r)
            \<and> fst (check_operator_log E h) = Inl e)))
   \<and> (system_state (snapshot h) \<noteq> []
      \<and> check_input E (snapshot h) (input_delta_of E h) = PassResult
      \<and> \<not> writable E (trial_dir (self h), generation)
      \<longrightarrow> fst (check E h generation) = Inl OSError)"
proof (cases "system_state (snapshot h) = []")
  case True
  then show ?thesis by (simp add: check_def)
next
  case False
  have lg: "fst (check_operator_log E h) =
      operator_log_loop E (input_delta_of E h) (operator_log (snapshot h))"
    by (simp add: check_operator_log_eq input_delta_of_def)
  have a: "(fst (check E h generation) = Inl e) =
     (system_state (snapshot h) \<noteq> []
      \<and> check_input E (snapshot h) (input_delta_of E h) = PassResult
      \<and> (fst (check_resources E (with_log_path h generation)) = Inl e
         \<or> ((\<exists>r. fst (check_resources E (with_log_path h generation)) = Inr r)
            \<and> fst (check_operator_log E h) = Inl e)))"
    unfolding lg check_verdict [OF False]
    by (cases "fst (check_resources E (with_log_path h generation))";
        cases "operator_log_loop E (input_delta_of E h) (operator_log (snapshot h))")
      (simp_all add: False)
  have b: "check_input E (snapshot h) (input_delta_of E h) = PassResult
      \<and> \<not> writable E (trial_dir (self h), generation)
      \<longrightarrow> fst (check E h generation) = Inl OSError"
    using check_resources_not_writable [of E h generation]
    by (simp add: check_verdict [OF False])
  show ?thesis using a b by blast
qed

theorem check_exceptions_witness:
  "system_state (snapshot heap_readonly) \<noteq> []
   \<and> check_input E0 (snapshot heap_readonly) (input_delta_of E0 heap_readonly) = PassResult
   \<and> \<not> writable E0 (trial_dir (self heap_readonly), 0)
   \<and> fst (check_resources E0 (with_log_path heap_readonly 0)) = Inl OSError
   \<and> fst (check E0 heap_readonly 0) = Inl OSError"
proof -
  have n: "system_state (snapshot heap_readonly) \<noteq> []" by (simp add: ex_defs)
  have i: "check_input E0 (snapshot heap_readonly) (input_delta_of E0 heap_readonly) = PassResult"
    by (simp add: ex_defs run_defs)
  have w: "\<not> writable E0 (trial_dir (self heap_readonly), 0)" by (simp add: ex_defs)
  have r: "fst (check_resources E0 (with_log_path heap_readonly 0)) = Inl OSError"
    by (simp add: ex_defs run_defs)
  show ?thesis
    using n i w r check_exceptions [of E0 heap_readonly 0 OSError] by simp
qed

section \<open>Path matching returns the deltas of maximal suffix overlap\<close>

lemma list_index_from_end:
  "list_index xs (- int k - 1) = (if k < length xs then Inr (rev xs ! k) else Inl IndexError)"
proof (cases "k < length xs")
  case True
  then have "nat (int (length xs) + (- int k - 1)) = length xs - Suc k" by simp
  then show ?thesis using True by (simp add: list_index_def rev_nth)
next
  case False
  then show ?thesis by (simp add: list_index_def)
qed

lemma list_index_last: "xs \<noteq> [] \<Longrightarrow> list_index xs (- 1) = Inr (last xs)"
  using list_index_from_end [of xs 0] by (simp add: last_conv_nth rev_nth)

lemma cpl_drop:
  "k < length xs \<Longrightarrow> k < length ys \<Longrightarrow>
     common_prefix_length eq (drop k xs) (drop k ys) =
       (if eq (xs ! k) (ys ! k) then Suc (common_prefix_length eq (drop (Suc k) xs) (drop (Suc k) ys)) else 0)"
  by (simp add: Cons_nth_drop_Suc [symmetric])

lemma cpl_Nil: "common_prefix_length eq [] ys = 0" "common_prefix_length eq xs [] = 0"
  by (cases ys; simp) (cases xs; simp)

lemma match_loop_overlap:
  "k < length p \<Longrightarrow> k < length q \<Longrightarrow>
     match_loop E p q k =
       Inr (k + common_prefix_length (\<lambda>a b. canonicalize E a = canonicalize E b)
                  (drop k (rev p)) (drop k (rev q)))"
proof (induction E p q k rule: match_loop.induct)
  case (1 E pth dpath position)
  let ?eq = "\<lambda>a b. canonicalize E a = canonicalize E b"
  have ip: "list_index pth (- int position - 1) = Inr (rev pth ! position)"
    and iq: "list_index dpath (- int position - 1) = Inr (rev dpath ! position)"
    using "1.prems" by (simp_all add: list_index_from_end)
  have d: "common_prefix_length ?eq (drop position (rev pth)) (drop position (rev dpath)) =
      (if ?eq (rev pth ! position) (rev dpath ! position)
       then Suc (common_prefix_length ?eq (drop (Suc position) (rev pth)) (drop (Suc position) (rev dpath)))
       else 0)"
    using "1.prems" by (intro cpl_drop) simp_all
  show ?case
  proof (cases "?eq (rev pth ! position) (rev dpath ! position)")
    case False
    then show ?thesis
      by (subst match_loop.simps) (simp add: ip iq d)
  next
    case True
    show ?thesis
    proof (cases "position + 1 = min (length pth) (length dpath)")
      case m: True
      then have "drop (Suc position) (rev pth) = [] \<or> drop (Suc position) (rev dpath) = []"
        by (auto simp: min_def split: if_splits)
      then have "common_prefix_length ?eq (drop (Suc position) (rev pth)) (drop (Suc position) (rev dpath)) = 0"
        by (auto simp: cpl_Nil)
      then show ?thesis
        using True m by (subst match_loop.simps) (simp add: ip iq d)
    next
      case m: False
      then have lt: "position + 1 < length pth" "position + 1 < length dpath"
        using "1.prems" by (auto simp: min_def split: if_splits)
      have "match_loop E pth dpath (position + 1) =
          Inr (position + 1 + common_prefix_length ?eq (drop (position + 1) (rev pth))
                 (drop (position + 1) (rev dpath)))"
        using "1.IH" [OF ip iq True m lt] .
      then show ?thesis
        using True m by (subst match_loop.simps) (simp add: ip iq d)
    qed
  qed
qed

lemma match_loop_suffix_overlap:
  "p \<noteq> [] \<Longrightarrow> q \<noteq> [] \<Longrightarrow> match_loop E p q 0 = Inr (suffix_overlap E p q)"
  using match_loop_overlap [of 0 p q E] by (simp add: suffix_overlap_def)

lemma match_loop_empty:
  "p = [] \<or> q = [] \<Longrightarrow> match_loop E p q 0 = Inl IndexError"
proof -
  assume e: "p = [] \<or> q = []"
  have "list_index p (- int 0 - 1) = Inl IndexError \<or> list_index q (- int 0 - 1) = Inl IndexError"
    using e by (auto simp: list_index_def)
  then show ?thesis
    by (subst match_loop.simps) (auto split: sum.splits simp: list_index_def)
qed

lemma max_overlap_Cons:
  "max_overlap E pth (d # ds) m = max_overlap E pth ds (max m (suffix_overlap E pth (path d)))"
  by (simp add: max_overlap_def)

lemma max_overlap_ge: "m \<le> max_overlap E pth ds m"
proof (induction ds arbitrary: m)
  case Nil
  then show ?case by (simp add: max_overlap_def)
next
  case (Cons d ds)
  have "max m (suffix_overlap E pth (path d)) \<le> max_overlap E pth ds (max m (suffix_overlap E pth (path d)))"
    by (rule Cons.IH)
  then show ?case by (simp add: max_overlap_Cons)
qed

lemma max_overlap_upper:
  "d \<in> set ds \<Longrightarrow> suffix_overlap E pth (path d) \<le> max_overlap E pth ds m"
proof (induction ds arbitrary: m)
  case Nil
  then show ?case by simp
next
  case (Cons x ds)
  show ?case
  proof (cases "d = x")
    case True
    have "max m (suffix_overlap E pth (path x)) \<le> max_overlap E pth ds (max m (suffix_overlap E pth (path x)))"
      by (rule max_overlap_ge)
    then show ?thesis using True by (simp add: max_overlap_Cons)
  next
    case False
    then have "d \<in> set ds" using Cons.prems by simp
    then show ?thesis using Cons.IH by (simp add: max_overlap_Cons)
  qed
qed

lemma max_overlap_attained:
  "max_overlap E pth ds m = m \<or> (\<exists>d \<in> set ds. max_overlap E pth ds m = suffix_overlap E pth (path d))"
proof (induction ds arbitrary: m)
  case Nil
  then show ?case by (simp add: max_overlap_def)
next
  case (Cons x ds)
  let ?m' = "max m (suffix_overlap E pth (path x))"
  from Cons.IH [of ?m'] show ?case
  proof
    assume "max_overlap E pth ds ?m' = ?m'"
    then show ?thesis by (auto simp: max_overlap_Cons max_def split: if_splits)
  next
    assume "\<exists>d \<in> set ds. max_overlap E pth ds ?m' = suffix_overlap E pth (path d)"
    then show ?thesis by (auto simp: max_overlap_Cons)
  qed
qed

lemma matched_fields_loop_eq:
  assumes "pth \<noteq> []" and "\<forall>d \<in> set ds. path d \<noteq> []"
  shows "matched_fields_loop E pth ds results m =
     Inr ((if max_overlap E pth ds m = m then results else [])
          @ filter (\<lambda>d. suffix_overlap E pth (path d) = max_overlap E pth ds m
                         \<and> suffix_overlap E pth (path d) \<noteq> 0) ds)"
  using assms(2)
proof (induction ds arbitrary: results m)
  case Nil
  then show ?case by (simp add: max_overlap_def)
next
  case (Cons d ds)
  let ?pos = "suffix_overlap E pth (path d)"
  have ml: "match_loop E pth (path d) 0 = Inr ?pos"
    using assms(1) Cons.prems by (simp add: match_loop_suffix_overlap)
  have rest: "\<forall>d \<in> set ds. path d \<noteq> []" using Cons.prems by simp
  note ih = Cons.IH [OF rest]
  show ?case
  proof (cases "?pos = m \<and> ?pos \<noteq> 0")
    case True
    then have mo: "max_overlap E pth (d # ds) m = max_overlap E pth ds m"
      by (simp add: max_overlap_Cons)
    have ge: "m \<le> max_overlap E pth ds m" by (rule max_overlap_ge)
    show ?thesis
      using True ih [of "results @ [d]" m] ge
      by (simp add: ml mo)
  next
    case nt: False
    show ?thesis
    proof (cases "?pos > m")
      case True
      then have mo: "max_overlap E pth (d # ds) m = max_overlap E pth ds ?pos"
        by (simp add: max_overlap_Cons max_def)
      have ge: "?pos \<le> max_overlap E pth ds ?pos" by (rule max_overlap_ge)
      show ?thesis
        using True nt ih [of "[d]" ?pos] ge
        by (simp add: ml mo)
    next
      case False
      then have mo: "max_overlap E pth (d # ds) m = max_overlap E pth ds m"
        by (simp add: max_overlap_Cons max_def)
      have ge: "m \<le> max_overlap E pth ds m" by (rule max_overlap_ge)
      show ?thesis
        using False nt ih [of results m] ge
        by (auto simp: ml mo)
    qed
  qed
qed

lemma generic_loop_eq:
  "pth \<noteq> [] \<Longrightarrow> generic_loop rs pth = Inr (\<exists>regex \<in> set rs. regex (str_atom (last pth)))"
  by (induction rs) (simp_all add: list_index_last)

lemma maximal_iff:
  assumes "d \<in> set ds"
  shows "(suffix_overlap E pth (path d) = max_overlap E pth ds 0)
     = (\<forall>d' \<in> set ds. suffix_overlap E pth (path d') \<le> suffix_overlap E pth (path d))"
proof
  assume "suffix_overlap E pth (path d) = max_overlap E pth ds 0"
  then show "\<forall>d' \<in> set ds. suffix_overlap E pth (path d') \<le> suffix_overlap E pth (path d)"
    using max_overlap_upper [of _ ds E pth 0] by simp
next
  assume a: "\<forall>d' \<in> set ds. suffix_overlap E pth (path d') \<le> suffix_overlap E pth (path d)"
  have u: "suffix_overlap E pth (path d) \<le> max_overlap E pth ds 0"
    using assms by (rule max_overlap_upper)
  from max_overlap_attained [of E pth ds 0] show "suffix_overlap E pth (path d) = max_overlap E pth ds 0"
  proof
    assume "max_overlap E pth ds 0 = 0"
    then show ?thesis using u by simp
  next
    assume "\<exists>x \<in> set ds. max_overlap E pth ds 0 = suffix_overlap E pth (path x)"
    then show ?thesis using a u by (metis le_antisym)
  qed
qed

lemma list_matched_fields_returns:
  assumes "pth \<noteq> []"
  shows "(is_generic E (last pth) \<longrightarrow> list_matched_fields E pth delta_dict = Inr [])
     \<and> (\<not> is_generic E (last pth) \<longrightarrow> (\<forall>d \<in> set (state_deltas delta_dict). path d \<noteq> []) \<longrightarrow>
          list_matched_fields E pth delta_dict =
            Inr (filter (\<lambda>d. suffix_overlap E pth (path d) \<noteq> 0
                          \<and> (\<forall>d' \<in> set (state_deltas delta_dict).
                                suffix_overlap E pth (path d') \<le> suffix_overlap E pth (path d)))
                   (state_deltas delta_dict)))"
proof (intro conjI impI)
  assume "is_generic E (last pth)"
  then show "list_matched_fields E pth delta_dict = Inr []"
    using assms by (simp add: list_matched_fields_def generic_loop_eq is_generic_def)
next
  assume ng: "\<not> is_generic E (last pth)"
    and ne: "\<forall>d \<in> set (state_deltas delta_dict). path d \<noteq> []"
  let ?ds = "state_deltas delta_dict"
  have f: "filter (\<lambda>d. suffix_overlap E pth (path d) = max_overlap E pth ?ds 0
                         \<and> suffix_overlap E pth (path d) \<noteq> 0) ?ds
      = filter (\<lambda>d. suffix_overlap E pth (path d) \<noteq> 0
                          \<and> (\<forall>d' \<in> set ?ds. suffix_overlap E pth (path d') \<le> suffix_overlap E pth (path d))) ?ds"
    by (rule filter_cong) (auto simp: maximal_iff)
  have g: "generic_loop (GENERIC_FIELDS E) pth = Inr False"
    using ng assms by (simp add: generic_loop_eq is_generic_def)
  have "list_matched_fields E pth delta_dict = matched_fields_loop E pth ?ds [] 0"
    by (simp add: list_matched_fields_def g)
  also have "\<dots> = Inr (filter (\<lambda>d. suffix_overlap E pth (path d) = max_overlap E pth ?ds 0
                         \<and> suffix_overlap E pth (path d) \<noteq> 0) ?ds)"
    using matched_fields_loop_eq [OF assms ne, of E "[]" 0] by simp
  finally show "list_matched_fields E pth delta_dict =
            Inr (filter (\<lambda>d. suffix_overlap E pth (path d) \<noteq> 0
                          \<and> (\<forall>d' \<in> set ?ds. suffix_overlap E pth (path d') \<le> suffix_overlap E pth (path d))) ?ds)"
    by (simp only: f)
qed

lemma generic_loop_empty:
  "rs \<noteq> [] \<Longrightarrow> generic_loop rs [] = Inl IndexError"
  by (cases rs) (simp_all add: list_index_def)

lemmas overlap_defs = suffix_overlap_def is_generic_def

text \<open>
  Claim C3 as stated fails: on the empty path, and on a system delta that holds a delta
  with the empty path, \<open>_list_matched_fields\<close> reads \<open>path[-1]\<close> and raises
  \<open>IndexError\<close> instead of returning the empty list.
\<close>

theorem list_matched_fields_counterexample:
  "list_matched_fields E0 [] [] = Inl IndexError
   \<and> list_matched_fields E0 [Key ''replicas'']
        [(''pod'', [(''values_changed'', [(''root'', \<lparr>prev = PInt 1, curr = PInt 2, path = []\<rparr>)])])]
       = Inl IndexError"
  by (simp add: match_defs dict_values_def E0_def match_loop.simps)

text \<open>
  Claim C3, amended. For every path \<open>P\<close> that is not empty: if the last atom of \<open>P\<close>
  matches a regular expression of \<open>GENERIC_FIELDS\<close>, \<open>_list_matched_fields(P, D)\<close>
  returns the empty list; otherwise, for every system delta \<open>D\<close> whose deltas all have a
  path that is not empty, it returns exactly the deltas of \<open>D\<close>, in the order of \<open>D\<close>,
  whose canonicalized suffix overlap with \<open>P\<close> is maximal and not zero (all ties at the
  maximal overlap are returned; a maximal overlap of 0 gives the empty list). On the empty
  path it raises \<open>IndexError\<close> whenever \<open>GENERIC_FIELDS\<close> is not empty.
\<close>

theorem list_matched_fields_maximal_suffix:
  "(pth \<noteq> [] \<longrightarrow> is_generic E (last pth) \<longrightarrow> list_matched_fields E pth delta_dict = Inr [])
   \<and> (pth \<noteq> [] \<longrightarrow> \<not> is_generic E (last pth) \<longrightarrow>
        (\<forall>d \<in> set (state_deltas delta_dict). path d \<noteq> []) \<longrightarrow>
          list_matched_fields E pth delta_dict =
            Inr (filter (\<lambda>d. suffix_overlap E pth (path d) \<noteq> 0
                          \<and> (\<forall>d' \<in> set (state_deltas delta_dict).
                                suffix_overlap E pth (path d') \<le> suffix_overlap E pth (path d)))
                   (state_deltas delta_dict)))
   \<and> (pth = [] \<longrightarrow> GENERIC_FIELDS E \<noteq> [] \<longrightarrow>
          list_matched_fields E pth delta_dict = Inl IndexError)"
proof (intro conjI impI)
  assume "pth \<noteq> []" and "is_generic E (last pth)"
  then show "list_matched_fields E pth delta_dict = Inr []"
    using list_matched_fields_returns [of pth E delta_dict] by simp
next
  assume "pth \<noteq> []" and "\<not> is_generic E (last pth)"
    and "\<forall>d \<in> set (state_deltas delta_dict). path d \<noteq> []"
  then show "list_matched_fields E pth delta_dict =
            Inr (filter (\<lambda>d. suffix_overlap E pth (path d) \<noteq> 0
                          \<and> (\<forall>d' \<in> set (state_deltas delta_dict).
                                suffix_overlap E pth (path d') \<le> suffix_overlap E pth (path d)))
                   (state_deltas delta_dict))"
    using list_matched_fields_returns [of pth E delta_dict] by simp
next
  assume "pth = []" and "GENERIC_FIELDS E \<noteq> []"
  then show "list_matched_fields E pth delta_dict = Inl IndexError"
    by (simp add: list_matched_fields_def generic_loop_empty)
qed

theorem list_matched_fields_maximal_suffix_witness:
  "\<not> is_generic E0 (last [Key ''spec'', Key ''replicas''])
   \<and> list_all (\<lambda>d. path d \<noteq> []) (state_deltas delta_example)
   \<and> map (\<lambda>d. suffix_overlap E0 [Key ''spec'', Key ''replicas''] (path d)) (state_deltas delta_example)
       = [1, 2, 2]
   \<and> list_matched_fields E0 [Key ''spec'', Key ''replicas''] delta_example
       = Inr [state_change, state_follow]
   \<and> is_generic E0 (last [Key ''metadata'', Key ''name''])
   \<and> list_matched_fields E0 [Key ''metadata'', Key ''name''] delta_example = Inr []
   \<and> GENERIC_FIELDS E0 \<noteq> []
   \<and> list_matched_fields E0 [] delta_example = Inl IndexError"
proof -
  have sds: "state_deltas delta_example = [status_change, state_change, state_follow]"
    by (simp add: state_deltas_def delta_example_def dict_values_def)
  have paths: "path status_change = [Key ''db'', Key ''status'', Key ''replicas'']"
    "path state_change = [Key ''db'', Key ''spec'', Key ''replicas'']"
    "path state_follow = [Key ''db'', Key ''spec'', Key ''replicas'']"
    by (simp_all add: status_change_def state_change_def state_follow_def)
  have g1: "\<not> is_generic E0 (last [Key ''spec'', Key ''replicas''])"
    by (simp add: overlap_defs E0_def)
  have ne: "\<forall>d \<in> set (state_deltas delta_example). path d \<noteq> []"
    by (simp add: sds paths)
  have ov: "suffix_overlap E0 [Key ''spec'', Key ''replicas''] [Key ''db'', Key ''status'', Key ''replicas''] = 1"
    "suffix_overlap E0 [Key ''spec'', Key ''replicas''] [Key ''db'', Key ''spec'', Key ''replicas''] = 2"
    by (simp_all add: overlap_defs E0_def py_lower_def lower_char_def)
  have g2: "is_generic E0 (last [Key ''metadata'', Key ''name''])"
    by (simp add: overlap_defs E0_def)
  have g3: "GENERIC_FIELDS E0 \<noteq> []" by (simp add: E0_def)
  have d: "status_change \<noteq> state_change"
    by (simp add: status_change_def state_change_def)
  show ?thesis
    using g1 ne g2 g3
      list_matched_fields_maximal_suffix [of "[Key ''spec'', Key ''replicas'']" E0 delta_example]
      list_matched_fields_maximal_suffix [of "[Key ''metadata'', Key ''name'']" E0 delta_example]
      list_matched_fields_maximal_suffix [of "[]" E0 delta_example]
    by (simp add: sds paths ov list_all_iff)
qed

section \<open>The verdict of the state oracle\<close>

lemma find_inconsistent_None:
  "(find (inconsistent E d) ms = None) = list_all (\<lambda>m. compare E (prev d) (curr d) (prev m) (curr m)) ms"
  by (auto simp: find_None_iff list_all_iff)

lemma check_deltas_passes:
  "(fst (check_deltas E snap sd ds C) = Inr PassResult) = every_delta_passes E snap sd ds C"
proof (induction ds arbitrary: C)
  case Nil
  then show ?case by simp
next
  case (Cons d ds)
  show ?case
  proof (cases "input_compare E (prev d) (curr d)")
    case True
    then show ?thesis using Cons.IH [of C] by (simp add: cd_equivalent)
  next
    case ne: False
    obtain r C' where s: "should_skip_input_delta E C d snap = (r, C')"
      by (cases "should_skip_input_delta E C d snap")
    show ?thesis
    proof (cases r)
      case (Inl e)
      then show ?thesis using ne s cd_skip_raises [OF ne, of C snap e C' sd ds] by simp
    next
      case (Inr b)
      show ?thesis
      proof (cases b)
        case True
        then show ?thesis
          using ne s Inr Cons.IH [of C'] cd_skipped [OF ne, of C snap C' sd ds] by simp
      next
        case nb: False
        have s': "should_skip_input_delta E C d snap = (Inr False, C')"
          using s Inr nb by simp
        show ?thesis
        proof (cases "list_matched_fields E (path d) sd")
          case (Inl e)
          then show ?thesis using ne s' cd_match_raises [OF ne s' Inl, of ds] by simp
        next
          case ms: (Inr ms)
          show ?thesis
          proof (cases "find (inconsistent E d) ms")
            case (Some m)
            have "ms \<noteq> []" using Some by auto
            moreover have "\<not> list_all (\<lambda>m. compare E (prev d) (curr d) (prev m) (curr m)) ms"
              using Some find_inconsistent_None [of E d ms] by simp
            ultimately show ?thesis
              using ne s' ms cd_inconsistent [OF ne s' ms Some, of ds]
              by (simp add: consistent_match_def)
          next
            case None
            then have all: "list_all (\<lambda>m. compare E (prev d) (curr d) (prev m) (curr m)) ms"
              using find_inconsistent_None [of E d ms] by simp
            show ?thesis
            proof (cases "ms = []")
              case False
              then show ?thesis
                using ne s' ms all Cons.IH [of C'] cd_consistent [OF ne s' ms None False, of ds]
                by (simp add: consistent_match_def)
            next
              case True
              have ms': "list_matched_fields E (path d) sd = Inr []" using ms True by simp
              show ?thesis
              proof (cases "found_fallback E d sd")
                case f: True
                show ?thesis
                  using ne s' ms True f Cons.IH [of C'] cd_fallback [OF ne s' ms' f, of ds]
                  by (simp add: consistent_match_def)
              next
                case f: False
                show ?thesis
                  using ne s' ms True f cd_no_match [OF ne s' ms' f, of ds]
                  by (simp add: consistent_match_def)
              qed
            qed
          qed
        qed
      qed
    qed
  qed
qed

lemma check_deltas_append:
  "check_deltas E snap sd pre C = (Inr PassResult, C1) \<Longrightarrow>
     check_deltas E snap sd (pre @ rest) C = check_deltas E snap sd rest C1"
proof (induction pre arbitrary: C)
  case Nil
  then show ?case by simp
next
  case (Cons d pre)
  show ?case
  proof (cases "input_compare E (prev d) (curr d)")
    case True
    then show ?thesis
      using Cons.prems Cons.IH [of C] by (simp add: cd_equivalent)
  next
    case ne: False
    obtain r C' where s: "should_skip_input_delta E C d snap = (r, C')"
      by (cases "should_skip_input_delta E C d snap")
    show ?thesis
    proof (cases r)
      case (Inl e)
      then show ?thesis using Cons.prems cd_skip_raises [OF ne, of C snap e C' sd pre] s by simp
    next
      case (Inr b)
      show ?thesis
      proof (cases b)
        case True
        have s': "should_skip_input_delta E C d snap = (Inr True, C')" using s Inr True by simp
        show ?thesis
          using Cons.prems Cons.IH [of C'] cd_skipped [OF ne s', of sd pre]
            cd_skipped [OF ne s', of sd "pre @ rest"] by simp
      next
        case nb: False
        have s': "should_skip_input_delta E C d snap = (Inr False, C')"
          using s Inr nb by simp
        show ?thesis
        proof (cases "list_matched_fields E (path d) sd")
          case (Inl e)
          then show ?thesis using Cons.prems cd_match_raises [OF ne s' Inl, of pre] by simp
        next
          case ms: (Inr ms)
          show ?thesis
          proof (cases "find (inconsistent E d) ms")
            case (Some m)
            then show ?thesis using Cons.prems cd_inconsistent [OF ne s' ms Some, of pre] by simp
          next
            case None
            show ?thesis
            proof (cases "ms = []")
              case False
              show ?thesis
                using Cons.prems Cons.IH [of C'] cd_consistent [OF ne s' ms None False, of pre]
                  cd_consistent [OF ne s' ms None False, of "pre @ rest"] by simp
            next
              case True
              have ms': "list_matched_fields E (path d) sd = Inr []" using ms True by simp
              show ?thesis
              proof (cases "found_fallback E d sd")
                case f: True
                show ?thesis
                  using Cons.prems Cons.IH [of C'] cd_fallback [OF ne s' ms' f, of pre]
                    cd_fallback [OF ne s' ms' f, of "pre @ rest"] by simp
              next
                case f: False
                show ?thesis
                  using Cons.prems cd_no_match [OF ne s' ms' f, of pre] by simp
              qed
            qed
          qed
        qed
      qed
    qed
  qed
qed

lemma check_resources_reached:
  assumes "delta_log_path (self h) = Some p" and "writable E p"
    and "dict_pop (system_delta_of E h) ''custom_resource_spec'' = Inr sd"
  shows "fst (check_resources E h) =
     fst (check_deltas E (snapshot h) sd (input_deltas (input_delta_of E h)) (self h))"
proof -
  obtain i s h1 where g: "get_deltas E h = (i, s, h1)" by (cases "get_deltas E h") auto
  have i: "i = input_delta_of E h"
    using get_deltas_input [of E h] g by (simp add: input_delta_of_def)
  have s: "s = system_delta_of E h" using g by (simp add: system_delta_of_def)
  note f = get_deltas_frame [OF g]
  obtain r C' where c: "check_deltas E (snapshot h) sd (input_deltas i) (self h) = (r, C')"
    by (cases "check_deltas E (snapshot h) sd (input_deltas i) (self h)")
  show ?thesis
    using g f assms c by (simp add: check_resources_def Let_def i [symmetric] s [symmetric])
qed

lemma no_match_origin:
  "fst (check_deltas E snap sd ds C) =
     Inr (ErrorResult SYSTEM_STATE ''Found no matching fields for input'' (Some d) None) \<Longrightarrow>
   \<not> found_fallback E d sd"
proof (induction ds arbitrary: C)
  case Nil
  then show ?case by simp
next
  case (Cons x ds)
  show ?case
  proof (cases "input_compare E (prev x) (curr x)")
    case True
    then show ?thesis using Cons.prems Cons.IH [of C] by (simp add: cd_equivalent)
  next
    case ne: False
    obtain r C' where s: "should_skip_input_delta E C x snap = (r, C')"
      by (cases "should_skip_input_delta E C x snap")
    show ?thesis
    proof (cases r)
      case (Inl e)
      then show ?thesis using Cons.prems cd_skip_raises [OF ne, of C snap e C' sd ds] s by simp
    next
      case (Inr b)
      show ?thesis
      proof (cases b)
        case True
        have s': "should_skip_input_delta E C x snap = (Inr True, C')" using s Inr True by simp
        show ?thesis
          using Cons.prems Cons.IH [of C'] cd_skipped [OF ne s', of sd ds] by simp
      next
        case nb: False
        have s': "should_skip_input_delta E C x snap = (Inr False, C')"
          using s Inr nb by simp
        show ?thesis
        proof (cases "list_matched_fields E (path x) sd")
          case (Inl e)
          then show ?thesis using Cons.prems cd_match_raises [OF ne s' Inl, of ds] by simp
        next
          case ms: (Inr ms)
          show ?thesis
          proof (cases "find (inconsistent E x) ms")
            case (Some m)
            then show ?thesis using Cons.prems cd_inconsistent [OF ne s' ms Some, of ds] by simp
          next
            case None
            show ?thesis
            proof (cases "ms = []")
              case False
              show ?thesis
                using Cons.prems Cons.IH [of C'] cd_consistent [OF ne s' ms None False, of ds]
                by simp
            next
              case True
              have ms': "list_matched_fields E (path x) sd = Inr []" using ms True by simp
              show ?thesis
              proof (cases "found_fallback E x sd")
                case f: True
                show ?thesis
                  using Cons.prems Cons.IH [of C'] cd_fallback [OF ne s' ms' f, of ds] by simp
              next
                case f: False
                show ?thesis
                  using Cons.prems f cd_no_match [OF ne s' ms' f, of ds] by simp
              qed
            qed
          qed
        qed
      qed
    qed
  qed
qed

lemmas more_defs = system_delta_of_def sd_mismatch_def sd_follow_def heap_follow_def
  state_follow_def E_generic_def consistent_match_def input_change_def state_change_def
  match_loop.simps

text \<open>
  Claim C1 as stated fails: with no input delta at all, so that every input delta is
  equivalent, skipped or matched consistently, the state oracle does not return \<open>Pass\<close>
  when the delta log cannot be opened; it raises \<open>OSError\<close>.
\<close>

theorem check_resources_state_oracle_counterexample:
  "input_deltas (input_delta_of E0 (with_log_path heap_readonly 0)) = []
   \<and> fst (check_resources E0 (with_log_path heap_readonly 0)) = Inl OSError"
  by (simp add: ex_defs run_defs)

text \<open>
  Claim C1, amended. Let \<open>self.delta_log_path\<close> be set, the delta log be writable, and
  the system delta have the key \<open>custom_resource_spec\<close>, \<open>sd\<close> being the system delta
  without it. Then:
  \<^item> for every input delta \<open>d\<close> such that the loop over the deltas before \<open>d\<close> has
  passed (leaving the checker \<open>C1\<close>), \<open>d\<close> is not input-equivalent, the skip engine
  answers \<open>False\<close> for \<open>d\<close> and the path matching returns the match set \<open>ms\<close>: if some
  \<open>m\<close> of \<open>ms\<close> has \<open>compare(d.prev, d.curr, m.prev, m.curr)\<close> false, the state oracle
  returns \<open>Error(SYSTEM_STATE, 'Matched delta inconsistent with input delta', d, m)\<close> for
  the first such \<open>m\<close>; and if \<open>ms\<close> is empty, it returns
  \<open>Error(SYSTEM_STATE, 'Found no matching fields for input', d)\<close> if and only if no state
  delta \<open>s\<close> of \<open>sd\<close> has \<open>compare(d.prev, d.curr, s.prev, s.curr)\<close> true;
  \<^item> if every input delta is equivalent, skipped, or matched consistently, the state
  oracle returns \<open>Pass\<close>.
\<close>

theorem check_resources_state_oracle:
  assumes "delta_log_path (self h) = Some p" and "writable E p"
    and "dict_pop (system_delta_of E h) ''custom_resource_spec'' = Inr sd"
  shows
   "(input_deltas (input_delta_of E h) = pre @ d # post \<longrightarrow>
      check_deltas E (snapshot h) sd pre (self h) = (Inr PassResult, C1) \<longrightarrow>
      \<not> input_compare E (prev d) (curr d) \<longrightarrow>
      should_skip_input_delta E C1 d (snapshot h) = (Inr False, C2) \<longrightarrow>
      list_matched_fields E (path d) sd = Inr ms \<longrightarrow>
        ((\<exists>m \<in> set ms. inconsistent E d m) \<longrightarrow>
           (\<exists>m. find (inconsistent E d) ms = Some m
              \<and> fst (check_resources E h) =
                  Inr (ErrorResult SYSTEM_STATE ''Matched delta inconsistent with input delta''
                        (Some d) (Some m))))
        \<and> (ms = [] \<longrightarrow>
            (fst (check_resources E h) =
               Inr (ErrorResult SYSTEM_STATE ''Found no matching fields for input'' (Some d) None))
            = (\<forall>s \<in> set (state_deltas sd). \<not> compare E (prev d) (curr d) (prev s) (curr s))))
    \<and> (every_delta_passes E (snapshot h) sd (input_deltas (input_delta_of E h)) (self h) \<longrightarrow>
          fst (check_resources E h) = Inr PassResult)"
proof -
  note reach = check_resources_reached [OF assms]
  have third: "every_delta_passes E (snapshot h) sd (input_deltas (input_delta_of E h)) (self h) \<longrightarrow>
          fst (check_resources E h) = Inr PassResult"
    by (simp add: reach check_deltas_passes)
  have first: "input_deltas (input_delta_of E h) = pre @ d # post \<longrightarrow>
      check_deltas E (snapshot h) sd pre (self h) = (Inr PassResult, C1) \<longrightarrow>
      \<not> input_compare E (prev d) (curr d) \<longrightarrow>
      should_skip_input_delta E C1 d (snapshot h) = (Inr False, C2) \<longrightarrow>
      list_matched_fields E (path d) sd = Inr ms \<longrightarrow>
        ((\<exists>m \<in> set ms. inconsistent E d m) \<longrightarrow>
           (\<exists>m. find (inconsistent E d) ms = Some m
              \<and> fst (check_resources E h) =
                  Inr (ErrorResult SYSTEM_STATE ''Matched delta inconsistent with input delta''
                        (Some d) (Some m))))
        \<and> (ms = [] \<longrightarrow>
            (fst (check_resources E h) =
               Inr (ErrorResult SYSTEM_STATE ''Found no matching fields for input'' (Some d) None))
            = (\<forall>s \<in> set (state_deltas sd). \<not> compare E (prev d) (curr d) (prev s) (curr s)))"
  proof (intro impI)
    assume split: "input_deltas (input_delta_of E h) = pre @ d # post"
      and pre: "check_deltas E (snapshot h) sd pre (self h) = (Inr PassResult, C1)"
      and ne: "\<not> input_compare E (prev d) (curr d)"
      and sk: "should_skip_input_delta E C1 d (snapshot h) = (Inr False, C2)"
      and ms: "list_matched_fields E (path d) sd = Inr ms"
    have r: "fst (check_resources E h) = fst (check_deltas E (snapshot h) sd (d # post) C1)"
      using reach split check_deltas_append [OF pre, of "d # post"] by simp
    have a: "(\<exists>m \<in> set ms. inconsistent E d m) \<longrightarrow>
           (\<exists>m. find (inconsistent E d) ms = Some m
              \<and> fst (check_resources E h) =
                  Inr (ErrorResult SYSTEM_STATE ''Matched delta inconsistent with input delta''
                        (Some d) (Some m)))"
    proof
      assume "\<exists>m \<in> set ms. inconsistent E d m"
      then have "find (inconsistent E d) ms \<noteq> None" by (auto simp: find_None_iff)
      then obtain m where f: "find (inconsistent E d) ms = Some m" by auto
      show "\<exists>m. find (inconsistent E d) ms = Some m
              \<and> fst (check_resources E h) =
                  Inr (ErrorResult SYSTEM_STATE ''Matched delta inconsistent with input delta''
                        (Some d) (Some m))"
        using f r cd_inconsistent [OF ne sk ms f, of post] by simp
    qed
    have b: "ms = [] \<longrightarrow>
            (fst (check_resources E h) =
               Inr (ErrorResult SYSTEM_STATE ''Found no matching fields for input'' (Some d) None))
            = (\<forall>s \<in> set (state_deltas sd). \<not> compare E (prev d) (curr d) (prev s) (curr s))"
    proof
      assume e: "ms = []"
      have ms': "list_matched_fields E (path d) sd = Inr []" using ms e by simp
      have ff: "found_fallback E d sd = (\<not> (\<forall>s \<in> set (state_deltas sd). \<not> compare E (prev d) (curr d) (prev s) (curr s)))"
        by (simp add: found_fallback_def list_ex_iff)
      show "(fst (check_resources E h) =
               Inr (ErrorResult SYSTEM_STATE ''Found no matching fields for input'' (Some d) None))
            = (\<forall>s \<in> set (state_deltas sd). \<not> compare E (prev d) (curr d) (prev s) (curr s))"
      proof (cases "found_fallback E d sd")
        case False
        then show ?thesis using r ff cd_no_match [OF ne sk ms' False, of post] by simp
      next
        case True
        have "fst (check_resources E h) = fst (check_deltas E (snapshot h) sd post C2)"
          using r cd_fallback [OF ne sk ms' True, of post] by simp
        then have "fst (check_resources E h) \<noteq>
            Inr (ErrorResult SYSTEM_STATE ''Found no matching fields for input'' (Some d) None)"
          using no_match_origin [of E "snapshot h" sd post C2 d] True by auto
        then show ?thesis using ff True by simp
      qed
    qed
    show "((\<exists>m \<in> set ms. inconsistent E d m) \<longrightarrow>
           (\<exists>m. find (inconsistent E d) ms = Some m
              \<and> fst (check_resources E h) =
                  Inr (ErrorResult SYSTEM_STATE ''Matched delta inconsistent with input delta''
                        (Some d) (Some m))))
        \<and> (ms = [] \<longrightarrow>
            (fst (check_resources E h) =
               Inr (ErrorResult SYSTEM_STATE ''Found no matching fields for input'' (Some d) None))
            = (\<forall>s \<in> set (state_deltas sd). \<not> compare E (prev d) (curr d) (prev s) (curr s)))"
      using a b by blast
  qed
  show ?thesis using first third by blast
qed

theorem check_resources_state_oracle_witness:
  "delta_log_path (self (with_log_path heap_mismatch 0)) = Some (''/trial'', 0)
   \<and> writable E0 (''/trial'', 0)
   \<and> dict_pop (system_delta_of E0 (with_log_path heap_mismatch 0)) ''custom_resource_spec''
       = Inr sd_mismatch
   \<and> input_deltas (input_delta_of E0 (with_log_path heap_mismatch 0)) = [] @ input_change # []
   \<and> check_deltas E0 snap_mismatch sd_mismatch [] (self (with_log_path heap_mismatch 0))
       = (Inr PassResult, self (with_log_path heap_mismatch 0))
   \<and> \<not> input_compare E0 (prev input_change) (curr input_change)
   \<and> should_skip_input_delta E0 (self (with_log_path heap_mismatch 0)) input_change snap_mismatch
       = (Inr False, self (with_log_path heap_mismatch 0))
   \<and> list_matched_fields E0 (path input_change) sd_mismatch = Inr [state_change]
   \<and> inconsistent E0 input_change state_change
   \<and> fst (check_resources E0 (with_log_path heap_mismatch 0)) =
        Inr (ErrorResult SYSTEM_STATE ''Matched delta inconsistent with input delta''
              (Some input_change) (Some state_change))
   \<and> list_matched_fields E_generic (path input_change) sd_mismatch = Inr []
   \<and> list_all (\<lambda>s. \<not> compare E_generic (prev input_change) (curr input_change) (prev s) (curr s))
        (state_deltas sd_mismatch)
   \<and> fst (check_resources E_generic (with_log_path heap_mismatch 0)) =
        Inr (ErrorResult SYSTEM_STATE ''Found no matching fields for input'' (Some input_change) None)
   \<and> every_delta_passes E0 (snapshot (with_log_path heap_follow 0)) sd_follow
        (input_deltas (input_delta_of E0 (with_log_path heap_follow 0)))
        (self (with_log_path heap_follow 0))
   \<and> fst (check_resources E0 (with_log_path heap_follow 0)) = Inr PassResult"
proof -
  let ?h = "with_log_path heap_mismatch 0"
  let ?C = "self ?h"
  have p: "delta_log_path ?C = Some (''/trial'', 0)"
    by (simp add: ex_defs run_defs)
  have w: "writable E0 (''/trial'', 0)" "writable E_generic (''/trial'', 0)"
    by (simp_all add: E0_def E_generic_def)
  have sd: "dict_pop (system_delta_of E0 ?h) ''custom_resource_spec'' = Inr sd_mismatch"
    "dict_pop (system_delta_of E_generic ?h) ''custom_resource_spec'' = Inr sd_mismatch"
    by (simp_all add: ex_defs run_defs more_defs)
  have ds: "input_deltas (input_delta_of E0 ?h) = [] @ input_change # []"
    "input_deltas (input_delta_of E_generic ?h) = [] @ input_change # []"
    by (simp_all add: ex_defs run_defs more_defs)
  have sn: "snapshot ?h = snap_mismatch" by (simp add: ex_defs run_defs)
  have pre: "check_deltas E0 snap_mismatch sd_mismatch [] ?C = (Inr PassResult, ?C)"
    "check_deltas E_generic snap_mismatch sd_mismatch [] ?C = (Inr PassResult, ?C)"
    by simp_all
  have ne: "\<not> input_compare E0 (prev input_change) (curr input_change)"
    "\<not> input_compare E_generic (prev input_change) (curr input_change)"
    by (simp_all add: E0_def more_defs)
  have sk: "should_skip_input_delta E0 ?C input_change snap_mismatch = (Inr False, ?C)"
    "should_skip_input_delta E_generic ?C input_change snap_mismatch = (Inr False, ?C)"
    by (simp_all add: ex_defs run_defs more_defs skip_defs)
  have m1: "list_matched_fields E0 (path input_change) sd_mismatch = Inr [state_change]"
    by (simp add: E0_def more_defs match_defs dict_values_def py_lower_def lower_char_def)
  have m2: "list_matched_fields E_generic (path input_change) sd_mismatch = Inr []"
    by (simp add: E0_def more_defs match_defs dict_values_def)
  have inc: "inconsistent E0 input_change state_change"
    by (simp add: E0_def more_defs)
  have none: "\<forall>s \<in> set (state_deltas sd_mismatch).
      \<not> compare E_generic (prev input_change) (curr input_change) (prev s) (curr s)"
    by (simp add: E0_def more_defs state_deltas_def dict_values_def)
  let ?f = "with_log_path heap_follow 0"
  have pf: "delta_log_path (self ?f) = Some (''/trial'', 0)"
    by (simp add: ex_defs run_defs more_defs)
  have sdf: "dict_pop (system_delta_of E0 ?f) ''custom_resource_spec'' = Inr sd_follow"
    by (simp add: ex_defs run_defs more_defs)
  have ev: "every_delta_passes E0 (snapshot ?f) sd_follow
        (input_deltas (input_delta_of E0 ?f)) (self ?f)"
    by (simp add: ex_defs run_defs more_defs skip_defs match_defs py_lower_def lower_char_def)
  show ?thesis
    using p w sd ds pre ne sk m1 m2 inc none ev
      check_resources_state_oracle [OF p w(1) sd(1), of "[]" input_change "[]" ?C ?C "[state_change]"]
      check_resources_state_oracle [OF p w(2) sd(2), of "[]" input_change "[]" ?C ?C "[]"]
      check_resources_state_oracle [OF pf w(1) sdf, of "[]" input_change "[]" ?C ?C "[]"]
    by (simp add: sn list_all_iff)
qed

section \<open>The nearest parent of the skip engine\<close>

lemma init_nested: "Checker_init ctx0 ''/trial'' schema_nested = Inr checker_nested"
  by (simp add: Checker_init_def ctx0_def schema_nested_def checker_nested_def encode_dependency_def
      enabled_condition_def is_subfield_def dict_keys_def Let_def)

lemmas cond_defs = check_conditions_at_def check_condition_def apply_op_def index_to_zero_def

text \<open>
  Claim C4 does not hold of the code. \<open>find_nearest_parent\<close> never assigns its
  variable \<open>length\<close>, so it returns the last key of the index, in insertion order, that
  is a prefix of the path and is not empty, not the longest one. The checker built from
  \<open>schema_nested\<close> has the keys \<open>["spec", "tls"]\<close> and \<open>["spec"]\<close>, in this order; for the
  path \<open>["spec", "tls", "cert"]\<close> the function returns \<open>["spec"]\<close>. The conditions of the
  longest prefix \<open>["spec", "tls"]\<close> fail on the input (they would skip the delta); the
  conditions of \<open>["spec"]\<close> hold, and \<open>should_skip_input_delta\<close> answers \<open>False\<close>.
\<close>

theorem nearest_parent_not_longest:
  "Checker_init ctx0 ''/trial'' schema_nested = Inr checker_nested
   \<and> dict_keys (field_conditions_map checker_nested) = [[Key ''spec'', Key ''tls''], [Key ''spec'']]
   \<and> find_nearest_parent (path cert_change) (dict_keys (field_conditions_map checker_nested))
       = Some [Key ''spec'']
   \<and> fst (check_conditions_at E0 (input snap_tls_off) [Key ''spec'', Key ''tls''] checker_nested)
       = Inr True
   \<and> fst (check_conditions_at E0 (input snap_tls_off) [Key ''spec''] checker_nested) = Inr False
   \<and> fst (should_skip_input_delta E0 checker_nested cert_change snap_tls_off) = Inr False"
proof -
  have k: "dict_keys (field_conditions_map checker_nested) = [[Key ''spec'', Key ''tls''], [Key ''spec'']]"
    by (simp add: checker_nested_def dict_keys_def)
  have f: "find_nearest_parent (path cert_change) (dict_keys (field_conditions_map checker_nested))
       = Some [Key ''spec'']"
    by (simp add: k cert_change_def find_nearest_parent_def different_def)
  have a: "fst (check_conditions_at E0 (input snap_tls_off) [Key ''spec'', Key ''tls''] checker_nested)
       = Inr True"
    by (simp add: cond_defs checker_nested_def snap_tls_off_def input_tls_off_def E0_def)
  have b: "fst (check_conditions_at E0 (input snap_tls_off) [Key ''spec''] checker_nested) = Inr False"
    by (simp add: cond_defs checker_nested_def snap_tls_off_def input_tls_off_def E0_def)
  have c: "fst (should_skip_input_delta E0 checker_nested cert_change snap_tls_off) = Inr False"
    by (simp add: should_skip_input_delta_def default_value_skip_def control_flow_skip_def
        find_nearest_parent_def different_def cond_defs checker_nested_def snap_tls_off_def input_tls_off_def E0_def cert_change_def
        dict_keys_def)
  show ?thesis using init_nested k f a b c by simp
qed

section \<open>The dependency index after construction\<close>
























end
